theory Spec2Isabelle
  imports Main "HOL-Library.Word" "HOL-Library.Sublist" "HOL-Library.Char_ord"
    "HOL-Library.List_Lexorder"
begin

unbundle bit_operations_syntax

section \<open>The typed program graph (go/types, as sizegen reads it)\<close>

text \<open>
  sizegen.go walks values of go/types. A \<open>*types.Named\<close> is a pointer to a type
  declaration; two of them are the same type iff the pointers are equal, and type
  graphs may be cyclic through them. The model therefore gives every named type an
  identity (\<open>named\<close>) and keeps the declarations in a table (\<open>Decl\<close> of the
  program graph), so that \<open>Named n\<close> is the reference and \<open>Underlying (Decl G n)\<close>
  the structural form \<open>named.Underlying()\<close>.
\<close>

datatype basicKind =
    Invalid | Bool | Int | Int8 | Int16 | Int32 | Int64
  | Uint | Uint8 | Uint16 | Uint32 | Uint64 | Uintptr
  | Float32 | Float64 | Complex64 | Complex128
  | String | UnsafePointer
  | UntypedBool | UntypedInt | UntypedRune | UntypedFloat | UntypedComplex
  | UntypedString | UntypedNil

type_synonym named = nat

datatype gotype =
    Basic basicKind
  | Struct "(string \<times> gotype) list"
  | Pointer gotype
  | Slice gotype
  | Map gotype gotype
  | Interface "string list"
  | Named named
  | Array nat gotype
  | Chan gotype
  | Signature

text \<open>
  A struct is its fields in declaration order, each a name and a type
  (\<open>Field(i).Name()\<close>, \<open>Field(i).Type()\<close>). An interface is its method names;
  \<open>Empty()\<close> holds iff there are none.
\<close>

record package =
  Path :: string
  Name :: string
  Scope :: "(string \<times> gotype) list"

text \<open>
  \<open>Scope\<close> is the package's top-level scope as \<open>findImplementations\<close> reads it:
  \<open>scope.Names()\<close> in order, each with \<open>scope.Lookup(name).Type()\<close>.
\<close>

record typeName =
  Obj_Name :: string
  Obj_Pkg :: package
  Underlying :: gotype

record program =
  Decl :: "named \<Rightarrow> typeName"
  Implements :: "gotype \<Rightarrow> gotype \<Rightarrow> bool"

text \<open>
  \<open>Implements\<close> stands for \<open>types.Implements\<close> of the go/types library, which the
  repository only calls. The model covers named types that are declared in a
  package (\<open>Obj_Pkg\<close>); the source dereferences \<open>named.Obj().Pkg()\<close> without a
  check.
\<close>

record module =
  ModPath :: string
  ModDir :: string

fun underlying :: "program \<Rightarrow> gotype \<Rightarrow> gotype" where
  "underlying G (Named n) = Underlying (Decl G n)"
| "underlying G t = t"

definition named_String :: "program \<Rightarrow> named \<Rightarrow> string" where
  "named_String G n = Path (Obj_Pkg (Decl G n)) @ ''.'' @ Obj_Name (Decl G n)"

section \<open>The generator's state\<close>

type_synonym codeFlag = "32 word"

definition codeWithInterface :: codeFlag where
  "codeWithInterface = push_bit 0 1"

definition codeWithUnsafe :: codeFlag where
  "codeWithUnsafe = push_bit 1 1"

record typeState =
  generated :: bool
  local :: bool
  pod :: bool

section \<open>isPod\<close>

fun isPod :: "gotype \<Rightarrow> bool"
  and isPod_fields :: "(string \<times> gotype) list \<Rightarrow> bool" where
  "isPod (Struct fs) = isPod_fields fs"
| "isPod (Basic k) = (case k of String \<Rightarrow> False | UnsafePointer \<Rightarrow> False | _ \<Rightarrow> True)"
| "isPod (Pointer t) = False"
| "isPod (Slice t) = False"
| "isPod (Map k v) = False"
| "isPod (Interface ms) = False"
| "isPod (Named n) = False"
| "isPod (Array n t) = False"
| "isPod (Chan t) = False"
| "isPod Signature = False"
| "isPod_fields [] = True"
| "isPod_fields (f # fs) = (if \<not> isPod (snd f) then False else isPod_fields fs)"

section \<open>The generated code (the jen syntax tree, as far as sizegen builds it)\<close>

text \<open>
  \<open>LitInt n\<close> is \<open>jen.Lit\<close> of a Go \<open>int\<close> (printed as the bare literal),
  \<open>LitInt64 n\<close> is \<open>jen.Lit\<close> of an \<open>int64\<close> (printed as \<open>int64(n)\<close>).
\<close>

datatype expr =
    Ident string
  | LitInt int
  | LitInt64 int
  | LitBool bool
  | NilLit
  | Dot expr string
  | Qual string string
  | Call expr "expr list"
  | Binop expr string expr
  | Star expr
  | Parens expr
  | Assert expr expr

datatype stmt =
    AddAssign expr expr
  | Define "expr list" expr
  | IfStmt expr "stmt list"
  | IfInit stmt expr "stmt list"
  | ForRange "expr list" expr "stmt list"
  | Block "stmt list"
  | Return expr
  | FieldComment string gotype

text \<open>
  \<open>AddAssign l r\<close> is \<open>l += r\<close>, \<open>Define ls r\<close> is \<open>ls := r\<close>,
  \<open>IfInit i c b\<close> is \<open>if i; c { b }\<close>, \<open>ForRange vs x b\<close> is
  \<open>for vs := range x { b }\<close>, and \<open>FieldComment n t\<close> is the comment
  \<open>jen.Commentf("%s", field.String())\<close> of the field named \<open>n\<close> of type \<open>t\<close>.
\<close>

record funcDecl =
  recv_name :: string
  recv_type :: expr
  func_name :: string
  func_params :: "(string \<times> string) list"
  func_result :: string
  func_body :: "stmt list"

record codeImpl =
  impl_name :: string
  impl_flags :: codeFlag
  impl_code :: funcDecl

record codeFile =
  pkg :: string
  impls :: "codeImpl list"

record sizegen =
  DebugTypes :: bool
  mod' :: module
  sizes :: "gotype \<Rightarrow> int"
  codegen :: "string \<rightharpoonup> codeFile"
  known :: "named \<rightharpoonup> typeState"

text \<open>
  \<open>sizes\<close> is \<open>types.Sizes.Sizeof\<close>, an \<open>int64\<close>. \<open>known\<close> and \<open>codegen\<close>
  hold pointers in the source; every \<open>*typeState\<close> and \<open>*codeFile\<close> the code
  mutates is an entry of one of the two maps, so the model updates the entry under
  its key.
\<close>

datatype panic = IndexOutOfRange | InterfaceConversion

datatype 'a result = Ok 'a | Panics panic | OutOfFuel

definition newSizegen :: "module \<Rightarrow> (gotype \<Rightarrow> int) \<Rightarrow> sizegen" where
  "newSizegen m sz =
     \<lparr>DebugTypes = True, mod' = m, sizes = sz, codegen = Map.empty, known = Map.empty\<rparr>"

section \<open>getKnownType\<close>

definition getKnownType :: "program \<Rightarrow> named \<Rightarrow> sizegen \<Rightarrow> typeState \<times> sizegen" where
  "getKnownType G n s =
     (case known s n of
        Some ts \<Rightarrow> (ts, s)
      | None \<Rightarrow>
          (let ts = \<lparr>generated = False,
                     local = prefix (ModPath (mod' s)) (Path (Obj_Pkg (Decl G n))),
                     pod = isPod (Underlying (Decl G n))\<rparr>
           in (ts, s\<lparr>known := (known s)(n \<mapsto> ts)\<rparr>)))"

section \<open>The field walker: sizeStmtForMap and sizeStmtForType\<close>

definition int64_wrap :: "int \<Rightarrow> int" where
  "int64_wrap x = (x + 2 ^ 63) mod 2 ^ 64 - 2 ^ 63"

definition bucketCnt :: int where
  "bucketCnt = 8"

definition sizeofHmap :: int where
  "sizeofHmap = 6 * 8"

definition sizeOfBucket :: "sizegen \<Rightarrow> gotype \<Rightarrow> gotype \<Rightarrow> int" where
  "sizeOfBucket s k v =
     int64_wrap (bucketCnt + bucketCnt * sizes s k + bucketCnt * sizes s v + 8)"

definition size_id :: expr where
  "size_id = Ident ''size''"

definition hmap_probe :: "string \<Rightarrow> int \<Rightarrow> expr" where
  "hmap_probe ty off =
     Parens (Star (Call (Parens (Star (Ident ty)))
       [Call (Qual ''unsafe'' ''Pointer'')
         [Binop (Call (Dot (Ident ''hmap'') ''Pointer'') []) ''+''
                (Call (Ident ''uintptr'') [LitInt off])]]))"

definition sizeStmtForMap :: "sizegen \<Rightarrow> expr \<Rightarrow> gotype \<Rightarrow> gotype \<Rightarrow> stmt list" where
  "sizeStmtForMap s fieldName k v =
     [AddAssign size_id (LitInt64 sizeofHmap),
      Define [Ident ''hmap''] (Call (Qual ''reflect'' ''ValueOf'') [fieldName]),
      Define [Ident ''numBuckets'']
        (Call (Ident ''int'')
          [Call (Qual ''math'' ''Pow'')
            [LitInt 2, Call (Ident ''float64'') [hmap_probe ''uint8'' 9]]]),
      Define [Ident ''numOldBuckets''] (hmap_probe ''uint16'' 10),
      AddAssign size_id
        (Call (Ident ''int64'')
          [Binop (Ident ''numOldBuckets'') ''*'' (LitInt (sizeOfBucket s k v))]),
      IfStmt
        (Binop (Binop (Call (Ident ''len'') [fieldName]) ''>'' (LitInt 0)) ''||''
               (Binop (Ident ''numBuckets'') ''>'' (LitInt 1)))
        [AddAssign size_id
          (Call (Ident ''int64'')
            [Binop (Ident ''numBuckets'') ''*'' (LitInt (sizeOfBucket s k v))])]]"

definition forLoopVars :: "stmt option \<Rightarrow> stmt option \<Rightarrow> expr list" where
  "forLoopVars keySize valSize =
     (case (keySize, valSize) of
        (Some _, Some _) \<Rightarrow> [Ident ''k'', Ident ''v'']
      | (None, Some _) \<Rightarrow> [Ident ''_'', Ident ''v'']
      | (Some _, None) \<Rightarrow> [Ident ''k'']
      | (None, None) \<Rightarrow> [])"

definition map_block ::
  "sizegen \<Rightarrow> expr \<Rightarrow> gotype \<Rightarrow> gotype \<Rightarrow> stmt option \<Rightarrow> stmt option \<Rightarrow> stmt list" where
  "map_block s fieldName k v keySize valSize =
     sizeStmtForMap s fieldName k v @
     (if keySize = None \<and> valSize = None then []
      else [ForRange (forLoopVars keySize valSize) fieldName
              (case_option [] (\<lambda>x. [x]) keySize @ case_option [] (\<lambda>x. [x]) valSize)])"

definition isString :: "basicKind \<Rightarrow> bool" where
  "isString k = (k = String \<or> k = UntypedString)"

text \<open>
  The walker recurses through slices, maps, pointers and named types. Nothing in the
  source bounds that recursion (a named type may refer to itself without crossing a
  struct, as in \<open>type T []T\<close>), so the model counts the depth of the recursion:
  \<open>OutOfFuel\<close> at depth 0, and a walk that is \<open>OutOfFuel\<close> at every depth does not
  return. The log lines of the source are left out.
\<close>

fun sizeStmtForType ::
  "nat \<Rightarrow> program \<Rightarrow> expr \<Rightarrow> gotype \<Rightarrow> bool \<Rightarrow> sizegen
    \<Rightarrow> ((stmt option \<times> codeFlag) \<times> sizegen) result" where
  "sizeStmtForType 0 G fieldName field alloc s = OutOfFuel"
| "sizeStmtForType (Suc d) G fieldName field alloc s =
     (if sizes s field = 0 then Ok ((None, 0), s)
      else case field of
        Slice elemT \<Rightarrow>
          (let elemSize = sizes s elemT in
           if elemSize = 0 then Ok ((None, 0), s)
           else if elemSize = 1 then
             Ok ((Some (AddAssign size_id
                    (Call (Ident ''int64'') [Call (Ident ''cap'') [fieldName]])), 0), s)
           else
             (case sizeStmtForType d G (Ident ''elem'') elemT False s of
                Ok ((stmt, flag), s') \<Rightarrow>
                  Ok ((Some (Block
                        (AddAssign size_id
                           (Binop (Call (Ident ''int64'') [Call (Ident ''cap'') [fieldName]])
                                  ''*'' (LitInt64 (sizes s elemT)))
                         # (case stmt of
                              None \<Rightarrow> []
                            | Some st \<Rightarrow>
                                [ForRange [Ident ''_'', Ident ''elem''] fieldName [st]]))),
                       flag), s')
              | Panics p \<Rightarrow> Panics p
              | OutOfFuel \<Rightarrow> OutOfFuel))
      | Map k v \<Rightarrow>
          (case sizeStmtForType d G (Ident ''k'') k False s of
             Ok ((keySize, keyFlag), s1) \<Rightarrow>
               (case sizeStmtForType d G (Ident ''v'') v False s1 of
                  Ok ((valSize, valFlag), s2) \<Rightarrow>
                    Ok ((Some (IfStmt (Binop fieldName ''!='' NilLit)
                                 (map_block s fieldName k v keySize valSize)),
                         codeWithUnsafe OR keyFlag OR valFlag), s2)
                | Panics p \<Rightarrow> Panics p
                | OutOfFuel \<Rightarrow> OutOfFuel)
           | Panics p \<Rightarrow> Panics p
           | OutOfFuel \<Rightarrow> OutOfFuel)
      | Pointer elemT \<Rightarrow> sizeStmtForType d G fieldName elemT True s
      | Named node \<Rightarrow>
          (case getKnownType G node s of
             (ts, s1) \<Rightarrow>
               if pod ts \<or> \<not> local ts then
                 (if alloc then
                    Ok ((Some (IfStmt (Binop fieldName ''!='' NilLit)
                                 [AddAssign size_id
                                    (LitInt64 (sizes s (Underlying (Decl G node))))]), 0), s1)
                  else Ok ((None, 0), s1))
               else sizeStmtForType d G fieldName (Underlying (Decl G node)) alloc s1)
      | Interface ms \<Rightarrow>
          (if ms = [] then Ok ((None, 0), s)
           else
             Ok ((Some (IfInit
                          (Define [Ident ''cc'', Ident ''ok'']
                             (Assert fieldName (Ident ''cachedObject'')))
                          (Ident ''ok'')
                          [AddAssign size_id
                             (Call (Dot (Ident ''cc'') ''CachedSize'') [LitBool True])]),
                  codeWithInterface), s))
      | Struct fs \<Rightarrow>
          Ok ((Some (AddAssign size_id
                       (Call (Dot fieldName ''CachedSize'') [LitBool alloc])), 0), s)
      | Basic kind \<Rightarrow>
          (if \<not> alloc then
             (if isString kind then
                Ok ((Some (AddAssign size_id
                             (Call (Ident ''int64'') [Call (Ident ''len'') [fieldName]])), 0), s)
              else Ok ((None, 0), s))
           else Ok ((Some (AddAssign size_id (LitInt64 (sizes s field))), 0), s))
      | _ \<Rightarrow> Ok ((None, 0), s))"

section \<open>The method synthesizer: sizeImplForStruct\<close>

text \<open>
  \<open>field_loop\<close> is the loop over the fields of \<open>sizeImplForStruct\<close>, with its two
  accumulators \<open>stmt\<close> and \<open>funcFlags\<close>.
\<close>

fun field_loop ::
  "nat \<Rightarrow> program \<Rightarrow> (string \<times> gotype) list \<Rightarrow> stmt list \<Rightarrow> codeFlag \<Rightarrow> sizegen
    \<Rightarrow> ((stmt list \<times> codeFlag) \<times> sizegen) result" where
  "field_loop d G [] stmt funcFlags s = Ok ((stmt, funcFlags), s)"
| "field_loop d G (field # rest) stmt funcFlags s =
     (case sizeStmtForType d G (Dot (Ident ''cached'') (fst field)) (snd field) False s of
        Ok ((fieldStmt, flag), s') \<Rightarrow>
          field_loop d G rest
            (case fieldStmt of
               None \<Rightarrow> stmt
             | Some st \<Rightarrow>
                 (if DebugTypes s then stmt @ [FieldComment (fst field) (snd field)] else stmt)
                 @ [st])
            (funcFlags OR flag) s'
      | Panics p \<Rightarrow> Panics p
      | OutOfFuel \<Rightarrow> OutOfFuel)"

definition cachedSize_func :: "string \<Rightarrow> int \<Rightarrow> stmt list \<Rightarrow> funcDecl" where
  "cachedSize_func name sz stmt =
     \<lparr>recv_name = ''cached'', recv_type = Star (Ident name),
      func_name = ''CachedSize'', func_params = [(''alloc'', ''bool'')],
      func_result = ''int64'',
      func_body =
        [IfStmt (Binop (Ident ''cached'') ''=='' NilLit) [Return (LitInt64 0)],
         Define [size_id] (LitInt64 0),
         IfStmt (Ident ''alloc'') [AddAssign size_id (LitInt64 sz)]]
        @ stmt @ [Return size_id]\<rparr>"

definition sizeImplForStruct ::
  "nat \<Rightarrow> program \<Rightarrow> string \<Rightarrow> (string \<times> gotype) list \<Rightarrow> sizegen
    \<Rightarrow> ((funcDecl option \<times> codeFlag) \<times> sizegen) result" where
  "sizeImplForStruct d G name st s =
     (if sizes s (Struct st) = 0 then Ok ((None, 0), s)
      else
        (case field_loop d G st [] 0 s of
           Ok ((stmt, funcFlags), s') \<Rightarrow>
             Ok ((Some (cachedSize_func name (sizes s (Struct st)) stmt), funcFlags), s')
         | Panics p \<Rightarrow> Panics p
         | OutOfFuel \<Rightarrow> OutOfFuel))"

section \<open>generateType and generateKnownType\<close>

text \<open>
  \<open>file\<close> is a \<open>*codeFile\<close> in the source, always the entry of \<open>codegen\<close> that
  \<open>generateKnownType\<close> found or created; the model passes its key. The callback
  that \<open>generateType\<close> hands to \<open>findImplementations\<close> is the body of
  \<open>generateType_impls\<close>, the loop over \<open>scope.Names()\<close>. The type assertion
  \<open>tt.(*types.Named)\<close> panics when the object's type is a struct that is not named.
\<close>

definition append_impl :: "string \<Rightarrow> codeImpl \<Rightarrow> sizegen \<Rightarrow> sizegen" where
  "append_impl file impl s =
     (case codegen s file of
        None \<Rightarrow> s
      | Some f \<Rightarrow> s\<lparr>codegen := (codegen s)(file \<mapsto> f\<lparr>impls := impls f @ [impl]\<rparr>)\<rparr>)"

function generateType ::
    "nat \<Rightarrow> program \<Rightarrow> package \<Rightarrow> string \<Rightarrow> named \<Rightarrow> sizegen \<Rightarrow> sizegen result"
  and generateType_impls ::
    "nat \<Rightarrow> program \<Rightarrow> package \<Rightarrow> string \<Rightarrow> gotype \<Rightarrow> (string \<times> gotype) list \<Rightarrow> sizegen
      \<Rightarrow> sizegen result" where
  "generateType d G pk file n s =
     (case getKnownType G n s of
        (ts, s1) \<Rightarrow>
          if generated ts then Ok s1
          else
            (let s2 = s1\<lparr>known := (known s1)(n \<mapsto> ts\<lparr>generated := True\<rparr>)\<rparr> in
             case Underlying (Decl G n) of
               Struct fs \<Rightarrow>
                 (case sizeImplForStruct d G (Obj_Name (Decl G n)) fs s2 of
                    Ok ((impl, flag), s3) \<Rightarrow>
                      (case impl of
                         None \<Rightarrow> Ok s3
                       | Some f \<Rightarrow>
                           Ok (append_impl file
                                 \<lparr>impl_name = named_String G n, impl_flags = flag,
                                  impl_code = f\<rparr> s3))
                  | Panics p \<Rightarrow> Panics p
                  | OutOfFuel \<Rightarrow> OutOfFuel)
             | Interface ms \<Rightarrow> generateType_impls d G pk file (Interface ms) (Scope pk) s2
             | _ \<Rightarrow> Ok s2))"
| "generateType_impls d G pk file iface [] s = Ok s"
| "generateType_impls d G pk file iface (obj # rest) s =
     (if Implements G (snd obj) iface \<or> Implements G (Pointer (snd obj)) iface then
        (case underlying G (snd obj) of
           Struct fs \<Rightarrow>
             (case snd obj of
                Named m \<Rightarrow>
                  (case generateType d G pk file m s of
                     Ok s' \<Rightarrow> generateType_impls d G pk file iface rest s'
                   | Panics p \<Rightarrow> Panics p
                   | OutOfFuel \<Rightarrow> OutOfFuel)
              | _ \<Rightarrow> Panics InterfaceConversion)
         | _ \<Rightarrow> generateType_impls d G pk file iface rest s)
      else generateType_impls d G pk file iface rest s)"
  by pat_completeness auto
termination
  by (relation "measure (\<lambda>x. case x of
         Inl (d, G, pk, file, n, s) \<Rightarrow>
           (case Underlying (Decl G n) of Interface ms \<Rightarrow> length (Scope pk) + 2 | _ \<Rightarrow> 0)
       | Inr (d, G, pk, file, iface, objs, s) \<Rightarrow> length objs + 1)")
    auto

definition generateKnownType :: "nat \<Rightarrow> program \<Rightarrow> named \<Rightarrow> sizegen \<Rightarrow> sizegen result" where
  "generateKnownType d G n s =
     (let pkgInfo = Obj_Pkg (Decl G n);
          s1 = (case codegen s (Path pkgInfo) of
                  None \<Rightarrow>
                    s\<lparr>codegen := (codegen s)(Path pkgInfo \<mapsto> \<lparr>pkg = Name pkgInfo, impls = []\<rparr>)\<rparr>
                | Some file \<Rightarrow> s)
      in generateType d G pkgInfo (Path pkgInfo) n s1)"

section \<open>The fixpoint driver: generateRemainingKnownTypes\<close>

text \<open>
  The driver ranges over the Go map \<open>known\<close> while \<open>generateKnownType\<close> adds
  entries to it. Go leaves the order of a map range open, and an entry created during
  the range may or may not be produced by it. The model takes the order from outside:
  \<open>known_pass\<close> visits the keys of a list \<open>order\<close> in turn and passes over a key that
  has no entry (yet) when its turn comes. A range over the map is a pass whose
  \<open>order\<close> is duplicate-free and holds every key the map has when the pass starts.
  The outer loop \<open>for !complete\<close> takes one order per pass; when the orders run out
  the result is \<open>OutOfFuel\<close>. The driver returns the generated code and, since the
  generator is mutated in place, the generator after the run and the number of passes.
\<close>

record generatedCode =
  gc_mod :: module
  files :: "string \<rightharpoonup> codeFile"

fun known_pass ::
  "nat \<Rightarrow> program \<Rightarrow> named list \<Rightarrow> bool \<Rightarrow> sizegen \<Rightarrow> (bool \<times> sizegen) result" where
  "known_pass d G [] complete s = Ok (complete, s)"
| "known_pass d G (tt # rest) complete s =
     (case known s tt of
        None \<Rightarrow> known_pass d G rest complete s
      | Some ts \<Rightarrow>
          (let isComplex = \<not> pod ts; notYetGenerated = \<not> generated ts in
           if local ts \<and> isComplex \<and> notYetGenerated then
             (case generateKnownType d G tt s of
                Ok s' \<Rightarrow> known_pass d G rest False s'
              | Panics p \<Rightarrow> Panics p
              | OutOfFuel \<Rightarrow> OutOfFuel)
           else known_pass d G rest complete s))"

fun remaining_loop ::
  "nat \<Rightarrow> program \<Rightarrow> named list list \<Rightarrow> nat \<Rightarrow> sizegen
    \<Rightarrow> (generatedCode \<times> sizegen \<times> nat) result" where
  "remaining_loop d G [] passes s = OutOfFuel"
| "remaining_loop d G (order # orders) passes s =
     (case known_pass d G order True s of
        Ok (complete, s') \<Rightarrow>
          if complete then Ok (\<lparr>gc_mod = mod' s', files = codegen s'\<rparr>, s', Suc passes)
          else remaining_loop d G orders (Suc passes) s'
      | Panics p \<Rightarrow> Panics p
      | OutOfFuel \<Rightarrow> OutOfFuel)"

definition generateRemainingKnownTypes ::
  "nat \<Rightarrow> program \<Rightarrow> named list list \<Rightarrow> sizegen \<Rightarrow> (generatedCode \<times> sizegen \<times> nat) result" where
  "generateRemainingKnownTypes d G orders s = remaining_loop d G orders 0 s"

section \<open>The writer: writeGeneratedCode\<close>

text \<open>
  The writer's surroundings are the \<open>fileWriter\<close> and the code printer. A
  \<open>fileWriter\<close> answers \<open>forFile(fullPath)\<close> with an error or a sink, and the sink's
  \<open>Write\<close> and \<open>Close\<close> succeed or fail: \<open>sink\<close> holds the three outcomes for a
  path. \<open>out.Render\<close> prints the file into a buffer, runs \<open>go/format\<close> over the
  buffer and only then writes to the sink: it fails, before any write, when the text
  does not parse as Go, and otherwise when the sink's \<open>Write\<close> fails. The outcome of
  \<open>go/format\<close> on a file is the \<open>formatter\<close>. What the writer does to its
  surroundings is the list of \<open>event\<close>s. A path is the argument list of
  \<open>path.Join\<close>; the rendered file is the \<open>jenFile\<close> handed to the printer.
\<close>

datatype error = Errorf string | FailedToSave "string list" error

datatype decl = CachedObject | NoCheckPtr | Method funcDecl

record jenFile =
  jf_pkg :: string
  jf_header :: "string list list"
  jf_decls :: "decl list"

record sink =
  create_err :: "error option"
  write_err :: "error option"
  close_err :: "error option"

type_synonym fileWriter = "string list \<Rightarrow> sink"

type_synonym formatter = "jenFile \<Rightarrow> error option"

definition Render :: "formatter \<Rightarrow> sink \<Rightarrow> jenFile \<Rightarrow> error option" where
  "Render fmt snk out = (case fmt out of Some err \<Rightarrow> Some err | None \<Rightarrow> write_err snk)"

datatype event =
    LogForeign string
  | Created "string list"
  | Rendered "string list" jenFile
  | Closed "string list"
  | LogSaved string "string list"

definition licenseFileHeader :: "string list" where
  \<open>licenseFileHeader =
     [''Copyright 2021 The Vitess Authors.'',
      [],
      ''Licensed under the Apache License, Version 2.0 (the "License");'',
      ''you may not use this file except in compliance with the License.'',
      ''You may obtain a copy of the License at'',
      [],
      ''    http://www.apache.org/licenses/LICENSE-2.0'',
      [],
      ''Unless required by applicable law or agreed to in writing, software'',
      ''distributed under the License is distributed on an "AS IS" BASIS,'',
      ''WITHOUT WARRANTIES OR CONDITIONS OF ANY KIND, either express or implied.'',
      ''See the License for the specific language governing permissions and'',
      ''limitations under the License.'']\<close>

text \<open>
  The lines of the constant \<open>licenseFileHeader\<close>.

  \<open>sort.Slice\<close> with \<open>strings.Compare(a.name, b.name) < 0\<close>: a sort by name in the
  byte-wise lexicographic order. \<open>sort.Slice\<close> is not stable; the model agrees with
  it wherever no two names are equal.
\<close>

definition sort_Slice :: "codeImpl list \<Rightarrow> codeImpl list" where
  "sort_Slice xs = sort_key impl_name xs"

definition TrimPrefix :: "string \<Rightarrow> string \<Rightarrow> string" where
  "TrimPrefix str pre = (if prefix pre str then drop (length pre) str else str)"

definition impl_decls :: "codeImpl \<Rightarrow> decl list" where
  "impl_decls impl =
     (if impl_flags impl AND codeWithUnsafe \<noteq> 0 then [NoCheckPtr] else [])
     @ [Method (impl_code impl)]"

definition render_file :: "codeFile \<Rightarrow> codeImpl list \<Rightarrow> jenFile" where
  "render_file file ordered =
     \<lparr>jf_pkg = pkg file,
      jf_header = [licenseFileHeader, [''Code generated by Sizegen. DO NOT EDIT.'']],
      jf_decls =
        (if list_ex (\<lambda>impl. impl_flags impl AND codeWithInterface \<noteq> 0) ordered
         then [CachedObject] else [])
        @ concat (map impl_decls ordered)\<rparr>"

definition fullPath_of :: "generatedCode \<Rightarrow> string \<Rightarrow> string list" where
  "fullPath_of code p =
     [ModDir (gc_mod code), TrimPrefix p (ModPath (gc_mod code)), ''cached_size.go'']"

text \<open>
  \<open>write_loop\<close> is the range over \<open>code.files\<close>, in the order the keys come in
  (Go leaves it open); a key without an entry is passed over. After a failed
  \<open>Render\<close> the sink is closed and the outcome of that \<open>Close\<close> is dropped.
\<close>

fun write_loop ::
  "generatedCode \<Rightarrow> fileWriter \<Rightarrow> formatter \<Rightarrow> string list \<Rightarrow> event list
    \<Rightarrow> error option \<times> event list" where
  "write_loop code wr fmt [] ev = (None, ev)"
| "write_loop code wr fmt (p # rest) ev =
     (case files code p of
        None \<Rightarrow> write_loop code wr fmt rest ev
      | Some file \<Rightarrow>
          if length (impls file) = 0 then write_loop code wr fmt rest ev
          else if \<not> prefix (ModPath (gc_mod code)) p then
            write_loop code wr fmt rest (ev @ [LogForeign p])
          else
            (let out = render_file file (sort_Slice (impls file));
                 fullPath = fullPath_of code p
             in case create_err (wr fullPath) of
                  Some err \<Rightarrow> (Some err, ev)
                | None \<Rightarrow>
                    (case Render fmt (wr fullPath) out of
                       Some err \<Rightarrow>
                         (Some (FailedToSave fullPath err),
                          ev @ [Created fullPath, Closed fullPath])
                     | None \<Rightarrow>
                         (case close_err (wr fullPath) of
                            Some err \<Rightarrow>
                              (Some err,
                               ev @ [Created fullPath, Rendered fullPath out, Closed fullPath])
                          | None \<Rightarrow>
                              write_loop code wr fmt rest
                                (ev @ [Created fullPath, Rendered fullPath out,
                                       Closed fullPath, LogSaved p fullPath])))))"

definition writeGeneratedCode ::
  "generatedCode \<Rightarrow> fileWriter \<Rightarrow> formatter \<Rightarrow> string list
    \<Rightarrow> error option \<times> event list" where
  "writeGeneratedCode code wr fmt order = write_loop code wr fmt order []"

section \<open>generateCode\<close>

record loadedPackage =
  PkgPath :: string
  Module :: module
  TypesSizes :: "gotype \<Rightarrow> int"
  Types :: package

text \<open>\<open>strings.LastIndexByte\<close>: the index of the last \<open>c\<close> in \<open>str\<close>, or \<open>-1\<close>.\<close>

fun last_index_from :: "string \<Rightarrow> char \<Rightarrow> int \<Rightarrow> int \<Rightarrow> int" where
  "last_index_from [] c i found = found"
| "last_index_from (x # xs) c i found =
     last_index_from xs c (i + 1) (if x = c then i else found)"

definition LastIndexByte :: "string \<Rightarrow> char \<Rightarrow> int" where
  "LastIndexByte str c = last_index_from str c 0 (- 1)"

fun load_scopes ::
  "loadedPackage list \<Rightarrow> (string \<rightharpoonup> (string \<times> gotype) list)
    \<Rightarrow> (string \<rightharpoonup> (string \<times> gotype) list)" where
  "load_scopes [] scopes = scopes"
| "load_scopes (p # ps) scopes = load_scopes ps (scopes(PkgPath p \<mapsto> Scope (Types p)))"

definition quoted :: "string \<Rightarrow> string" where
  "quoted str = [CHR 0x27] @ str @ [CHR 0x27]"

text \<open>\<open>quoted\<close> is the argument between single quotes, \<open>'%s'\<close>.\<close>

fun generate_loop ::
  "nat \<Rightarrow> program \<Rightarrow> (string \<rightharpoonup> (string \<times> gotype) list) \<Rightarrow> string list \<Rightarrow> sizegen
    \<Rightarrow> (error + sizegen) result" where
  "generate_loop d G scopes [] s = Ok (Inr s)"
| "generate_loop d G scopes (gen # rest) s =
     (let pos = LastIndexByte gen (CHR ''.'') in
      if pos < 0 then Ok (Inl (Errorf (''unexpected input type: '' @ gen)))
      else
        (let pkgname = take (nat pos) gen; typename = drop (nat pos + 1) gen in
         case scopes pkgname of
           None \<Rightarrow> Ok (Inl (Errorf (''no scope found for type '' @ quoted gen)))
         | Some scope \<Rightarrow>
             (case map_of scope typename of
                None \<Rightarrow>
                  Ok (Inl (Errorf (''no type called '' @ quoted typename @ '' found in ''
                                   @ quoted pkgname)))
              | Some tt \<Rightarrow>
                  (case tt of
                     Named n \<Rightarrow>
                       (case generateKnownType d G n s of
                          Ok s' \<Rightarrow> generate_loop d G scopes rest s'
                        | Panics p \<Rightarrow> Panics p
                        | OutOfFuel \<Rightarrow> OutOfFuel)
                   | _ \<Rightarrow> Panics InterfaceConversion))))"

text \<open>
  \<open>loaded[0]\<close> is read before anything else; indexing an empty slice panics.
\<close>

definition generateCode ::
  "nat \<Rightarrow> program \<Rightarrow> loadedPackage list \<Rightarrow> string list \<Rightarrow> (error + sizegen) result" where
  "generateCode d G loaded generate =
     (case loaded of
        [] \<Rightarrow> Panics IndexOutOfRange
      | first # others \<Rightarrow>
          generate_loop d G (load_scopes loaded Map.empty) generate
            (newSizegen (Module first) (TypesSizes first)))"

text \<open>
  \<open>root_of\<close> is the type a root \<open>pkg.Type\<close> of the command line resolves to in
  \<open>generateCode\<close>: the text is cut at its last dot, the scope of the package looked
  up and the name looked up in the scope. Without a result \<open>generateCode\<close> returns
  an error, and with one that is not a named type it panics.
\<close>

definition root_of :: "(string \<rightharpoonup> (string \<times> gotype) list) \<Rightarrow> string \<Rightarrow> gotype option" where
  "root_of scopes gen =
     (let pos = LastIndexByte gen (CHR ''.'') in
      if pos < 0 then None
      else (case scopes (take (nat pos) gen) of
              None \<Rightarrow> None
            | Some scope \<Rightarrow> map_of scope (drop (nat pos + 1) gen)))"

section \<open>The shapes the spec describes\<close>

text \<open>
  Modelled from the spec's words, to be compared with the source's loop
  \<open>field_loop\<close>: the statements of a method body are, "for each field in declaration
  order, the statement produced by the walker with a reference to that field and
  under_pointer = false". \<open>field_stmts\<close> is what one field contributes (nothing when
  the walker gives no statement; the statement, after the field's comment when
  \<open>DebugTypes\<close> is set, otherwise), and \<open>walk_fields\<close> concatenates the contributions
  in field order, the registry being threaded through the walks.
\<close>

definition field_stmts :: "bool \<Rightarrow> string \<times> gotype \<Rightarrow> stmt option \<Rightarrow> stmt list" where
  "field_stmts dbg field fieldStmt =
     (case fieldStmt of
        None \<Rightarrow> []
      | Some st \<Rightarrow> (if dbg then [FieldComment (fst field) (snd field)] else []) @ [st])"

fun walk_fields ::
  "nat \<Rightarrow> program \<Rightarrow> (string \<times> gotype) list \<Rightarrow> sizegen
    \<Rightarrow> ((stmt list \<times> codeFlag) \<times> sizegen) result" where
  "walk_fields d G [] s = Ok (([], 0), s)"
| "walk_fields d G (field # rest) s =
     (case sizeStmtForType d G (Dot (Ident ''cached'') (fst field)) (snd field) False s of
        Ok ((fieldStmt, flag), s') \<Rightarrow>
          (case walk_fields d G rest s' of
             Ok ((stmts, flags), s'') \<Rightarrow>
               Ok ((field_stmts (DebugTypes s) field fieldStmt @ stmts, flag OR flags), s'')
           | Panics p \<Rightarrow> Panics p
           | OutOfFuel \<Rightarrow> OutOfFuel)
      | Panics p \<Rightarrow> Panics p
      | OutOfFuel \<Rightarrow> OutOfFuel)"

text \<open>
  The charges a block makes unconditionally: the right-hand sides of its
  \<open>size += e\<close> statements that stand in the block itself, not under an \<open>if\<close> or a
  loop inside it.
\<close>

fun unconditional_charges :: "stmt list \<Rightarrow> expr list" where
  "unconditional_charges [] = []"
| "unconditional_charges (AddAssign l r # rest) =
     (if l = Ident ''size'' then r # unconditional_charges rest
      else unconditional_charges rest)"
| "unconditional_charges (st # rest) = unconditional_charges rest"

section \<open>The registry's invariants\<close>

text \<open>
  What the proofs below keep track of. \<open>local_of\<close> and \<open>init_ts\<close> are what
  \<open>getKnownType\<close> computes for a type it sees for the first time; a generator is
  \<open>consistent\<close> when every entry of its registry carries these two flags;
  \<open>is_generated\<close> reads the \<open>generated\<close> flag of a type (false without an entry);
  \<open>mark\<close> is the registry after \<open>ts.generated = true\<close>. \<open>emitted_ok\<close> says that
  every entry of the code collection is named after a type marked generated,
  \<open>unique_impls\<close> that no name occurs twice in the collection, neither within a
  file nor in two files, and \<open>step\<close> relates a generator with a later one.
\<close>

definition local_of :: "program \<Rightarrow> module \<Rightarrow> named \<Rightarrow> bool" where
  "local_of G m n = prefix (ModPath m) (Path (Obj_Pkg (Decl G n)))"

definition init_ts :: "program \<Rightarrow> module \<Rightarrow> named \<Rightarrow> typeState" where
  "init_ts G m n =
     \<lparr>generated = False, local = local_of G m n, pod = isPod (Underlying (Decl G n))\<rparr>"

definition consistent :: "program \<Rightarrow> sizegen \<Rightarrow> bool" where
  "consistent G s =
     (\<forall>n ts. known s n = Some ts \<longrightarrow>
        local ts = local_of G (mod' s) n \<and> pod ts = isPod (Underlying (Decl G n)))"

definition init_entries :: "program \<Rightarrow> module \<Rightarrow> (named \<rightharpoonup> typeState) \<Rightarrow> bool" where
  "init_entries G m K = (\<forall>n ts. K n = Some ts \<longrightarrow> ts = init_ts G m n)"

definition is_generated :: "sizegen \<Rightarrow> named \<Rightarrow> bool" where
  "is_generated s n = (case known s n of None \<Rightarrow> False | Some ts \<Rightarrow> generated ts)"

definition emitted_ok :: "program \<Rightarrow> sizegen \<Rightarrow> bool" where
  "emitted_ok G s =
     (\<forall>p f i. codegen s p = Some f \<and> i \<in> set (impls f) \<longrightarrow>
        (\<exists>n. impl_name i = named_String G n \<and> is_generated s n))"

definition unique_impls :: "sizegen \<Rightarrow> bool" where
  "unique_impls s =
     ((\<forall>p f. codegen s p = Some f \<longrightarrow> distinct (map impl_name (impls f))) \<and>
      (\<forall>p q f g. p \<noteq> q \<and> codegen s p = Some f \<and> codegen s q = Some g \<longrightarrow>
         impl_name ` set (impls f) \<inter> impl_name ` set (impls g) = {}))"

definition inv8 :: "program \<Rightarrow> sizegen \<Rightarrow> bool" where
  "inv8 G s =
     (consistent G s \<and> emitted_ok G s \<and> (inj (named_String G) \<longrightarrow> unique_impls s))"

definition step :: "sizegen \<Rightarrow> sizegen \<Rightarrow> bool" where
  "step s s' =
     (DebugTypes s' = DebugTypes s \<and> mod' s' = mod' s \<and> sizes s' = sizes s \<and>
      (\<forall>n. is_generated s n \<longrightarrow> is_generated s' n) \<and>
      dom (known s) \<subseteq> dom (known s') \<and> dom (codegen s) \<subseteq> dom (codegen s'))"

definition mark :: "program \<Rightarrow> named \<Rightarrow> sizegen \<Rightarrow> sizegen" where
  "mark G n s =
     s\<lparr>known := (known s)(n \<mapsto>
          \<lparr>generated = True, local = local_of G (mod' s) n,
           pod = isPod (Underlying (Decl G n))\<rparr>)\<rparr>"

text \<open>
  What a run generates. \<open>impl_of\<close> holds of the named struct types that
  \<open>generateType_impls\<close> hands to \<open>generateType\<close>: the objects of the scope that
  implement the interface, directly or through a pointer. \<open>forced G n x\<close> says that
  \<open>x\<close> is \<open>n\<close> itself or, \<open>n\<close> being an interface, one of these structs in the
  scope of \<open>n\<close>'s package: the types a synthesis started at \<open>n\<close> marks generated.
  \<open>has_entry\<close> says that the code collection holds an entry of the given name, and
  \<open>emits_all\<close> that every struct marked generated whose size is not zero has one
  (\<open>sizeImplForStruct\<close> returns no method for a struct of size zero).
\<close>

definition is_struct :: "program \<Rightarrow> named \<Rightarrow> bool" where
  "is_struct G n = (case Underlying (Decl G n) of Struct fs \<Rightarrow> True | _ \<Rightarrow> False)"

definition impl_of :: "program \<Rightarrow> gotype \<Rightarrow> (string \<times> gotype) list \<Rightarrow> named \<Rightarrow> bool" where
  "impl_of G iface objs m =
     (\<exists>obj \<in> set objs.
        (Implements G (snd obj) iface \<or> Implements G (Pointer (snd obj)) iface) \<and>
        snd obj = Named m \<and> is_struct G m)"

definition forced :: "program \<Rightarrow> named \<Rightarrow> named \<Rightarrow> bool" where
  "forced G n x =
     (x = n \<or>
      (case Underlying (Decl G n) of
         Interface ms \<Rightarrow> impl_of G (Interface ms) (Scope (Obj_Pkg (Decl G n))) x
       | _ \<Rightarrow> False))"

definition has_entry :: "sizegen \<Rightarrow> string \<Rightarrow> bool" where
  "has_entry s nm =
     (\<exists>p f i. codegen s p = Some f \<and> i < length (impls f) \<and> impl_name (impls f ! i) = nm)"

definition emits_all :: "program \<Rightarrow> sizegen \<Rightarrow> bool" where
  "emits_all G s =
     (\<forall>n fs. is_generated s n \<and> Underlying (Decl G n) = Struct fs \<and> sizes s (Struct fs) \<noteq> 0
        \<longrightarrow> has_entry s (named_String G n))"

section \<open>What the driver's termination rests on\<close>


definition pending :: "program \<Rightarrow> sizegen \<Rightarrow> named set" where
  "pending G s =
     {n. local_of G (mod' s) n \<and> \<not> isPod (Underlying (Decl G n)) \<and> \<not> is_generated s n}"





definition quiescent :: "sizegen \<Rightarrow> bool" where
  "quiescent s =
     (\<forall>n ts. known s n = Some ts \<longrightarrow> \<not> (local ts \<and> \<not> pod ts \<and> \<not> generated ts))"

section \<open>What the independence of the iteration order rests on\<close>

text \<open>
  The walk of a struct does not depend on the registry, so every named type has one
  walk: \<open>struct_walk\<close> runs it from the empty registry of a generator \<open>b\<close> (of
  which only the module, the sizes and the debug flag matter), \<open>refs\<close> are the named
  types the walk adds to the registry, and \<open>impl_list\<close> is the entry it yields, if
  any. \<open>gen_effect d G b s news s'\<close> describes a stretch of a run from \<open>s\<close> to
  \<open>s'\<close> by the list \<open>news\<close> of the types it marks generated, in order: the registry
  grows by these types and by what their walks refer to, the file of a package grows
  by their entries, a file that is created is named after the package of a type with
  that path, and the struct implementations of every interface in \<open>news\<close> are
  generated at the end (\<open>iface_closed\<close>). \<open>scope_local\<close> says that every object of
  a package scope whose type is a named type has a type declared in a package of that
  same path, and \<open>pkg_named\<close> that packages of one path have one name.
  \<open>below s T\<close> and \<open>absorbs d G b T\<close> compare a generator on the way with the end
  \<open>T\<close> of another run, and \<open>file_output\<close> is the file the writer renders for a
  group, if it renders one.
\<close>

definition struct_walk ::
  "nat \<Rightarrow> program \<Rightarrow> sizegen \<Rightarrow> named \<Rightarrow> ((funcDecl option \<times> codeFlag) \<times> sizegen) result" where
  "struct_walk d G b n =
     (case Underlying (Decl G n) of
        Struct fs \<Rightarrow> sizeImplForStruct d G (Obj_Name (Decl G n)) fs (b\<lparr>known := Map.empty\<rparr>)
      | _ \<Rightarrow> Ok ((None, 0), b\<lparr>known := Map.empty\<rparr>))"

definition refs :: "nat \<Rightarrow> program \<Rightarrow> sizegen \<Rightarrow> named \<Rightarrow> named set" where
  "refs d G b n = (case struct_walk d G b n of Ok (r, e) \<Rightarrow> dom (known e) | _ \<Rightarrow> {})"

definition impl_list :: "nat \<Rightarrow> program \<Rightarrow> sizegen \<Rightarrow> named \<Rightarrow> codeImpl list" where
  "impl_list d G b n =
     (case struct_walk d G b n of
        Ok ((Some f, flag), e) \<Rightarrow>
          [\<lparr>impl_name = named_String G n, impl_flags = flag, impl_code = f\<rparr>]
      | _ \<Rightarrow> [])"

definition file_impls :: "sizegen \<Rightarrow> string \<Rightarrow> codeImpl list" where
  "file_impls s p = (case codegen s p of None \<Rightarrow> [] | Some f \<Rightarrow> impls f)"

definition file_pkg :: "sizegen \<Rightarrow> string \<Rightarrow> string option" where
  "file_pkg s p = map_option pkg (codegen s p)"

definition pkg_path :: "program \<Rightarrow> named \<Rightarrow> string" where
  "pkg_path G n = Path (Obj_Pkg (Decl G n))"

definition impls_generated :: "program \<Rightarrow> sizegen \<Rightarrow> gotype \<Rightarrow> (string \<times> gotype) list \<Rightarrow> bool" where
  "impls_generated G s iface objs = (\<forall>m. impl_of G iface objs m \<longrightarrow> is_generated s m)"

definition iface_closed :: "program \<Rightarrow> sizegen \<Rightarrow> named \<Rightarrow> bool" where
  "iface_closed G s n =
     (case Underlying (Decl G n) of
        Interface ms \<Rightarrow> impls_generated G s (Interface ms) (Scope (Obj_Pkg (Decl G n)))
      | _ \<Rightarrow> True)"

definition gen_effect ::
  "nat \<Rightarrow> program \<Rightarrow> sizegen \<Rightarrow> sizegen \<Rightarrow> named list \<Rightarrow> sizegen \<Rightarrow> bool" where
  "gen_effect d G b s news s' =
     (distinct news \<and> (\<forall>x \<in> set news. \<not> is_generated s x) \<and>
      (\<forall>x. is_generated s' x = (is_generated s x \<or> x \<in> set news)) \<and>
      dom (known s') = dom (known s) \<union> set news \<union> (\<Union>x \<in> set news. refs d G b x) \<and>
      (\<forall>p. file_impls s' p =
             file_impls s p @ concat (map (impl_list d G b) (filter (\<lambda>x. pkg_path G x = p) news))) \<and>
      (\<forall>p. codegen s p \<noteq> None \<longrightarrow> file_pkg s' p = file_pkg s p) \<and>
      (\<forall>p. codegen s p = None \<and> codegen s' p \<noteq> None \<longrightarrow>
             (\<exists>n. pkg_path G n = p \<and> file_pkg s' p = Some (Name (Obj_Pkg (Decl G n))))) \<and>
      (\<forall>x \<in> set news. iface_closed G s' x))"

definition scope_local :: "program \<Rightarrow> bool" where
  "scope_local G =
     (\<forall>n obj m. obj \<in> set (Scope (Obj_Pkg (Decl G n))) \<and> snd obj = Named m \<longrightarrow>
        pkg_path G m = pkg_path G n)"

definition below :: "sizegen \<Rightarrow> sizegen \<Rightarrow> bool" where
  "below s T = (dom (known s) \<subseteq> dom (known T) \<and> (\<forall>x. is_generated s x \<longrightarrow> is_generated T x))"

definition absorbs :: "nat \<Rightarrow> program \<Rightarrow> sizegen \<Rightarrow> sizegen \<Rightarrow> bool" where
  "absorbs d G b T =
     ((\<forall>n \<in> dom (known T). local_of G (mod' T) n \<and> \<not> isPod (Underlying (Decl G n))
          \<longrightarrow> is_generated T n) \<and>
      (\<forall>x. is_generated T x \<and> \<not> is_generated b x \<longrightarrow>
           refs d G b x \<subseteq> dom (known T) \<and> iface_closed G T x))"

definition pkg_named :: "program \<Rightarrow> bool" where
  "pkg_named G =
     (\<forall>n m. pkg_path G n = pkg_path G m \<longrightarrow>
        Name (Obj_Pkg (Decl G n)) = Name (Obj_Pkg (Decl G m)))"

definition file_output :: "generatedCode \<Rightarrow> string \<Rightarrow> jenFile option" where
  "file_output code p =
     (case files code p of
        None \<Rightarrow> None
      | Some file \<Rightarrow>
          if length (impls file) = 0 \<or> \<not> prefix (ModPath (gc_mod code)) p then None
          else Some (render_file file (sort_Slice (impls file))))"

section \<open>Concrete programs\<close>

text \<open>
  A module \<open>m\<close> with one package \<open>m/p\<close>, and a package \<open>x/q\<close> outside it.
\<close>

definition ex_mod :: module where
  "ex_mod = \<lparr>ModPath = ''m'', ModDir = ''/src''\<rparr>"

definition ex_sizes :: "gotype \<Rightarrow> int" where
  "ex_sizes t =
     (case t of
        Basic k \<Rightarrow> (case k of String \<Rightarrow> 16 | Int32 \<Rightarrow> 4 | Uint8 \<Rightarrow> 1 | Bool \<Rightarrow> 1 | _ \<Rightarrow> 8)
      | Struct fs \<Rightarrow> 8 * int (length fs)
      | Slice e \<Rightarrow> 24
      | Interface ms \<Rightarrow> 16
      | Named n \<Rightarrow> 8
      | _ \<Rightarrow> 8)"

definition ex_pkg :: package where
  "ex_pkg = \<lparr>Path = ''m/p'', Name = ''p'', Scope = [(''A'', Named 0), (''B'', Named 1)]\<rparr>"

definition ex_foreign_pkg :: package where
  "ex_foreign_pkg = \<lparr>Path = ''x/q'', Name = ''q'', Scope = []\<rparr>"

text \<open>
  \<open>type A struct { b *B; s string }\<close> and \<open>type B struct { a *A; xs []int64 }\<close>
  in \<open>m/p\<close> (a cycle), and every other identity \<open>n\<close> a
  \<open>type Fx..x struct { n int32 }\<close> of \<open>x/q\<close> (with \<open>n\<close> letters \<open>x\<close>).
\<close>

definition ex_decl :: "named \<Rightarrow> typeName" where
  "ex_decl n =
     (if n = 0 then
        \<lparr>Obj_Name = ''A'', Obj_Pkg = ex_pkg,
         Underlying = Struct [(''b'', Pointer (Named 1)), (''s'', Basic String)]\<rparr>
      else if n = 1 then
        \<lparr>Obj_Name = ''B'', Obj_Pkg = ex_pkg,
         Underlying = Struct [(''a'', Pointer (Named 0)), (''xs'', Slice (Basic Int64))]\<rparr>
      else
        \<lparr>Obj_Name = ''F'' @ replicate n (CHR ''x''), Obj_Pkg = ex_foreign_pkg,
         Underlying = Struct [(''n'', Basic Int32)]\<rparr>)"

definition ex_prog :: program where
  "ex_prog = \<lparr>Decl = ex_decl, Implements = (\<lambda>t i. False)\<rparr>"

definition ex_gen :: sizegen where
  "ex_gen = newSizegen ex_mod ex_sizes"

definition ex_loaded :: "loadedPackage list" where
  "ex_loaded = [\<lparr>PkgPath = ''m/p'', Module = ex_mod, TypesSizes = ex_sizes, Types = ex_pkg\<rparr>]"

text \<open>
  Generated code for two packages of the module, \<open>m/a\<close> with the method of a type
  \<open>T\<close> and \<open>m/b\<close> with the method of a type \<open>U\<close> (an entry is named after the
  qualified name of its type, and its method has the type's bare name as receiver).
  \<open>ex_wr\<close> is a file writer whose sink for \<open>m/a\<close> fails to close, \<open>ex_wr_full\<close>
  one whose sink for \<open>m/a\<close> fails to write and to close. \<open>ex_fmt\<close> refuses a file
  whose package clause or one of whose receiver types is not an identifier (letters,
  digits and \<open>_\<close>, no digit first): nothing else in the files of these examples can
  fail to parse.
\<close>

definition ex_impl :: "string \<Rightarrow> string \<Rightarrow> codeImpl" where
  "ex_impl path nm =
     \<lparr>impl_name = path @ ''.'' @ nm, impl_flags = 0, impl_code = cachedSize_func nm 8 []\<rparr>"

definition ex_code :: generatedCode where
  "ex_code =
     \<lparr>gc_mod = ex_mod,
      files = [''m/a'' \<mapsto> \<lparr>pkg = ''a'', impls = [ex_impl ''m/a'' ''T'']\<rparr>,
               ''m/b'' \<mapsto> \<lparr>pkg = ''b'', impls = [ex_impl ''m/b'' ''U'']\<rparr>]\<rparr>"

definition ex_wr :: fileWriter where
  "ex_wr fp =
     (if fp = [''/src'', ''/a'', ''cached_size.go'']
      then \<lparr>create_err = None, write_err = None, close_err = Some (Errorf ''close'')\<rparr>
      else \<lparr>create_err = None, write_err = None, close_err = None\<rparr>)"

definition ex_wr_full :: fileWriter where
  "ex_wr_full fp =
     (if fp = [''/src'', ''/a'', ''cached_size.go'']
      then \<lparr>create_err = None, write_err = Some (Errorf ''write''),
            close_err = Some (Errorf ''close'')\<rparr>
      else \<lparr>create_err = None, write_err = None, close_err = None\<rparr>)"

definition isIdent :: "string \<Rightarrow> bool" where
  "isIdent str =
     (case str of
        [] \<Rightarrow> False
      | c # cs \<Rightarrow>
          c \<in> set ''abcdefghijklmnopqrstuvwxyzABCDEFGHIJKLMNOPQRSTUVWXYZ_'' \<and>
          list_all (\<lambda>x. x \<in> set ''abcdefghijklmnopqrstuvwxyzABCDEFGHIJKLMNOPQRSTUVWXYZ_0123456789'')
            cs)"

definition ex_fmt :: formatter where
  "ex_fmt out =
     (if isIdent (jf_pkg out) \<and>
         list_all (\<lambda>d. case d of
                     Method f \<Rightarrow> (case recv_type f of Star (Ident nm) \<Rightarrow> isIdent nm | _ \<Rightarrow> False)
                   | _ \<Rightarrow> True) (jf_decls out)
      then None else Some (Errorf ''formatting source''))"

text \<open>
  The run on the cycle: the root \<open>m/p.A\<close>, then the driver. \<open>ex_implA\<close> and
  \<open>ex_implB\<close> are the two methods, \<open>ex_after_roots\<close> the generator after
  \<open>generateCode\<close> and \<open>ex_final\<close> the generator after the driver.
\<close>

definition ex_implA :: codeImpl where
  "ex_implA =
     \<lparr>impl_name = ''m/p.A'', impl_flags = 0,
      impl_code = cachedSize_func ''A'' 16
        [FieldComment ''b'' (Pointer (Named 1)),
         AddAssign (Ident ''size'')
           (Call (Dot (Dot (Ident ''cached'') ''b'') ''CachedSize'') [LitBool True]),
         FieldComment ''s'' (Basic String),
         AddAssign (Ident ''size'')
           (Call (Ident ''int64'') [Call (Ident ''len'') [Dot (Ident ''cached'') ''s'']])]\<rparr>"

definition ex_implB :: codeImpl where
  "ex_implB =
     \<lparr>impl_name = ''m/p.B'', impl_flags = 0,
      impl_code = cachedSize_func ''B'' 16
        [FieldComment ''a'' (Pointer (Named 0)),
         AddAssign (Ident ''size'')
           (Call (Dot (Dot (Ident ''cached'') ''a'') ''CachedSize'') [LitBool True]),
         FieldComment ''xs'' (Slice (Basic Int64)),
         Block [AddAssign (Ident ''size'')
           (Binop (Call (Ident ''int64'') [Call (Ident ''cap'') [Dot (Ident ''cached'') ''xs'']])
                  ''*'' (LitInt64 8))]]\<rparr>"

definition ex_after_roots :: sizegen where
  "ex_after_roots =
     ex_gen\<lparr>codegen := [''m/p'' \<mapsto> \<lparr>pkg = ''p'', impls = [ex_implA]\<rparr>],
            known := [0 \<mapsto> \<lparr>generated = True, local = True, pod = False\<rparr>,
                      1 \<mapsto> \<lparr>generated = False, local = True, pod = False\<rparr>]\<rparr>"

definition ex_final :: sizegen where
  "ex_final =
     ex_gen\<lparr>codegen := [''m/p'' \<mapsto> \<lparr>pkg = ''p'', impls = [ex_implA, ex_implB]\<rparr>],
            known := [0 \<mapsto> \<lparr>generated = True, local = True, pod = False\<rparr>,
                      1 \<mapsto> \<lparr>generated = True, local = True, pod = False\<rparr>]\<rparr>"




text \<open>
  Two packages of the module \<open>m\<close>. Package \<open>m/b\<close> declares
  \<open>type T struct { s string }\<close> with a method \<open>func (*T) M()\<close>; package \<open>m/a\<close>
  declares \<open>type I interface { M() }\<close>, \<open>type R struct { i I; t *b.T }\<close> and a
  variable \<open>var X b.T\<close>. The scope of \<open>m/a\<close> holds \<open>I\<close>, \<open>R\<close> and \<open>X\<close>, and
  \<open>scope.Lookup("X").Type()\<close> is the named type \<open>b.T\<close>. \<open>types.Implements\<close>
  holds of \<open>I\<close> itself and of \<open>*b.T\<close>. \<open>ex_wr_ok\<close> is a file writer that never
  fails, and \<open>rendered_methods\<close> reads off a list of events the files that were
  rendered, each with the receiver types of its methods in order.
\<close>

definition ex_pkg_a :: package where
  "ex_pkg_a = \<lparr>Path = ''m/a'', Name = ''a'',
               Scope = [(''I'', Named 1), (''R'', Named 0), (''X'', Named 2)]\<rparr>"

definition ex_pkg_b :: package where
  "ex_pkg_b = \<lparr>Path = ''m/b'', Name = ''b'', Scope = [(''T'', Named 2)]\<rparr>"

definition ex_var_decl :: "named \<Rightarrow> typeName" where
  "ex_var_decl n =
     (if n = 0 then
        \<lparr>Obj_Name = ''R'', Obj_Pkg = ex_pkg_a,
         Underlying = Struct [(''i'', Named 1), (''t'', Pointer (Named 2))]\<rparr>
      else if n = 1 then
        \<lparr>Obj_Name = ''I'', Obj_Pkg = ex_pkg_a, Underlying = Interface [''M'']\<rparr>
      else if n = 2 then
        \<lparr>Obj_Name = ''T'', Obj_Pkg = ex_pkg_b, Underlying = Struct [(''s'', Basic String)]\<rparr>
      else
        \<lparr>Obj_Name = ''F'' @ replicate n (CHR ''x''), Obj_Pkg = ex_foreign_pkg,
         Underlying = Struct [(''n'', Basic Int32)]\<rparr>)"

definition ex_var :: program where
  "ex_var = \<lparr>Decl = ex_var_decl,
             Implements = (\<lambda>t i. i = Interface [''M''] \<and> (t = Named 1 \<or> t = Pointer (Named 2)))\<rparr>"

definition ex_var_loaded :: "loadedPackage list" where
  "ex_var_loaded =
     [\<lparr>PkgPath = ''m/a'', Module = ex_mod, TypesSizes = ex_sizes, Types = ex_pkg_a\<rparr>,
      \<lparr>PkgPath = ''m/b'', Module = ex_mod, TypesSizes = ex_sizes, Types = ex_pkg_b\<rparr>]"


definition ex_wr_ok :: fileWriter where
  "ex_wr_ok fp = \<lparr>create_err = None, write_err = None, close_err = None\<rparr>"

fun rendered_methods :: "event list \<Rightarrow> (string list \<times> expr list) list" where
  "rendered_methods [] = []"
| "rendered_methods (Rendered fp out # evs) =
     (fp, concat (map (\<lambda>d. case d of Method f \<Rightarrow> [recv_type f] | _ \<Rightarrow> []) (jf_decls out)))
     # rendered_methods evs"
| "rendered_methods (e # evs) = rendered_methods evs"





text \<open>
  \<open>type T []T\<close> in \<open>m/p\<close>: a named type that refers to itself without crossing a
  struct (every identity stands for such a type).
\<close>

definition ex_rec :: program where
  "ex_rec =
     \<lparr>Decl = (\<lambda>n. \<lparr>Obj_Name = ''T'', Obj_Pkg = ex_pkg, Underlying = Slice (Named n)\<rparr>),
      Implements = (\<lambda>t i. False)\<rparr>"

section \<open>Properties of isPod\<close>

lemma isPod_fields_all: "isPod_fields fs = list_all (\<lambda>f. isPod (snd f)) fs"
  by (induction fs) auto

text \<open>
  C4. \<open>isPod\<close> is true of a struct iff every field type is POD, true of a basic type
  iff its kind is neither \<open>String\<close> nor \<open>UnsafePointer\<close>, and false of every other
  type (slice, map, pointer, interface, named, and the remaining kinds).
\<close>

theorem isPod_classifies:
  "(isPod (Struct fs) \<longleftrightarrow> (\<forall>f \<in> set fs. isPod (snd f))) \<and>
   (isPod (Basic k) \<longleftrightarrow> k \<noteq> String \<and> k \<noteq> UnsafePointer) \<and>
   ((\<forall>fs'. t \<noteq> Struct fs') \<and> (\<forall>k'. t \<noteq> Basic k') \<longrightarrow> \<not> isPod t)"
proof (intro conjI)
  show "isPod (Struct fs) \<longleftrightarrow> (\<forall>f \<in> set fs. isPod (snd f))"
    by (simp add: isPod_fields_all list_all_iff)
  show "isPod (Basic k) \<longleftrightarrow> k \<noteq> String \<and> k \<noteq> UnsafePointer"
    by (cases k) simp_all
  show "(\<forall>fs'. t \<noteq> Struct fs') \<and> (\<forall>k'. t \<noteq> Basic k') \<longrightarrow> \<not> isPod t"
    by (cases t) simp_all
qed

theorem isPod_classifies_witness:
  "\<not> isPod (Struct [(''a'', Basic Int32), (''s'', Basic String)]) \<and>
   isPod (Struct [(''a'', Basic Int32), (''b'', Basic Bool)]) \<and>
   \<not> isPod (Basic UnsafePointer) \<and> isPod (Basic Int64) \<and>
   \<not> isPod (Named 0) \<and> \<not> isPod (Slice (Basic Int8))"
  using isPod_classifies [of "[(''a'', Basic Int32), (''s'', Basic String)]" UnsafePointer "Named 0"]
    isPod_classifies [of "[(''a'', Basic Int32), (''b'', Basic Bool)]" Int64 "Slice (Basic Int8)"]
  by simp

section \<open>Properties of getKnownType\<close>

text \<open>
  C1, as the spec states it: the \<open>local\<close> flag of a type looked up for the first time
  would be true iff the declaring package path is a prefix of the module path. It is
  not: for the module \<open>m\<close> and the package \<open>m/p\<close> the flag is set, and \<open>m/p\<close> is no
  prefix of \<open>m\<close>.
\<close>

theorem getKnownType_local_counterexample:
  "known ex_gen 0 = None \<and>
   local (fst (getKnownType ex_prog 0 ex_gen)) \<and>
   \<not> prefix (Path (Obj_Pkg (Decl ex_prog 0))) (ModPath (mod' ex_gen))"
  by (simp add: getKnownType_def Let_def ex_gen_def newSizegen_def ex_prog_def ex_decl_def
      ex_pkg_def ex_mod_def)

text \<open>
  C1, amended: on the first lookup of a named type (no entry yet), \<open>getKnownType\<close>
  stores and returns an entry whose \<open>local\<close> flag is true iff the module path is a
  prefix of the declaring package path (\<open>strings.HasPrefix(pkgPath, modPath)\<close>), whose
  \<open>pod\<close> flag is \<open>isPod\<close> of the underlying type and whose \<open>generated\<close> flag is
  false.
\<close>

theorem getKnownType_first_lookup:
  "known s n = None \<Longrightarrow>
   (local (fst (getKnownType G n s)) \<longleftrightarrow>
      prefix (ModPath (mod' s)) (Path (Obj_Pkg (Decl G n)))) \<and>
   (pod (fst (getKnownType G n s)) \<longleftrightarrow> isPod (Underlying (Decl G n))) \<and>
   \<not> generated (fst (getKnownType G n s)) \<and>
   known (snd (getKnownType G n s)) n = Some (fst (getKnownType G n s))"
  by (simp add: getKnownType_def Let_def)

theorem getKnownType_first_lookup_witness:
  "known ex_gen 2 = None \<and>
   \<not> local (fst (getKnownType ex_prog 2 ex_gen)) \<and>
   pod (fst (getKnownType ex_prog 2 ex_gen)) \<and>
   \<not> generated (fst (getKnownType ex_prog 2 ex_gen)) \<and>
   known (snd (getKnownType ex_prog 2 ex_gen)) 2 = Some (fst (getKnownType ex_prog 2 ex_gen))"
proof -
  have h: "known ex_gen 2 = None"
    by (simp add: ex_gen_def newSizegen_def)
  have p: "\<not> prefix (ModPath (mod' ex_gen)) (Path (Obj_Pkg (Decl ex_prog 2)))"
    by (simp add: ex_gen_def newSizegen_def ex_prog_def ex_decl_def ex_foreign_pkg_def ex_mod_def)
  have q: "isPod (Underlying (Decl ex_prog 2))"
    by (simp add: ex_prog_def ex_decl_def)
  show ?thesis
    using getKnownType_first_lookup [OF h, of ex_prog] h p q by simp
qed

section \<open>Properties of the field walker\<close>

lemma getKnownType_frame:
  "getKnownType G n s = (ts, s') \<Longrightarrow>
   DebugTypes s' = DebugTypes s \<and> mod' s' = mod' s \<and> sizes s' = sizes s \<and>
   codegen s' = codegen s"
  by (auto simp: getKnownType_def Let_def split: option.splits)

lemma sizeStmtForType_frame:
  "sizeStmtForType d G f t a s = Ok (r, s') \<Longrightarrow>
   DebugTypes s' = DebugTypes s \<and> mod' s' = mod' s \<and> sizes s' = sizes s \<and>
   codegen s' = codegen s"
proof (induction d arbitrary: f t a s r s')
  case 0
  then show ?case by simp
next
  case (Suc d)
  show ?case
  proof (cases "sizes s t = 0")
    case True
    with Suc.prems show ?thesis by simp
  next
    case nz: False
    show ?thesis
    proof (cases t)
      case (Slice e)
      with Suc.prems nz show ?thesis
        by (auto simp: Let_def split: if_splits result.splits prod.splits dest: Suc.IH)
    next
      case (Map k v)
      with Suc.prems nz show ?thesis
        by (auto simp: Let_def split: if_splits result.splits prod.splits dest!: Suc.IH)
    next
      case (Pointer e)
      with Suc.prems nz show ?thesis
        by (auto dest: Suc.IH)
    next
      case (Named n)
      obtain ts s1 where g: "getKnownType G n s = (ts, s1)"
        by (cases "getKnownType G n s")
      from getKnownType_frame [OF g] Suc.prems nz Named g show ?thesis
        by (auto split: if_splits dest!: Suc.IH)
    qed (use Suc.prems nz in \<open>auto split: if_splits\<close>)
  qed
qed

text \<open>
  C2, as the spec states it: under the non-nil guard both the old-buckets term and
  the buckets term would be charged unconditionally. For a field \<open>m\<close> of type
  \<open>map[string]int32\<close> (bucket size 176) the block under the guard charges
  unconditionally only the header and the old-buckets term; the buckets term stands
  under \<open>if len(cached.m) > 0 || numBuckets > 1\<close>.
\<close>

theorem sizeStmtForType_map_counterexample:
  "sizeStmtForType 2 ex_prog (Dot (Ident ''cached'') ''m'') (Map (Basic String) (Basic Int32))
      False ex_gen =
     Ok ((Some (IfStmt (Binop (Dot (Ident ''cached'') ''m'') ''!='' NilLit)
                  (map_block ex_gen (Dot (Ident ''cached'') ''m'') (Basic String) (Basic Int32)
                     (Some (AddAssign (Ident ''size'')
                              (Call (Ident ''int64'') [Call (Ident ''len'') [Ident ''k'']])))
                     None)),
          codeWithUnsafe), ex_gen) \<and>
   unconditional_charges
     (map_block ex_gen (Dot (Ident ''cached'') ''m'') (Basic String) (Basic Int32)
        (Some (AddAssign (Ident ''size'')
                 (Call (Ident ''int64'') [Call (Ident ''len'') [Ident ''k'']])))
        None) =
     [LitInt64 48,
      Call (Ident ''int64'') [Binop (Ident ''numOldBuckets'') ''*'' (LitInt 176)]] \<and>
   map_block ex_gen (Dot (Ident ''cached'') ''m'') (Basic String) (Basic Int32)
        (Some (AddAssign (Ident ''size'')
                 (Call (Ident ''int64'') [Call (Ident ''len'') [Ident ''k'']])))
        None ! 5 =
     IfStmt
       (Binop (Binop (Call (Ident ''len'') [Dot (Ident ''cached'') ''m'']) ''>'' (LitInt 0))
              ''||'' (Binop (Ident ''numBuckets'') ''>'' (LitInt 1)))
       [AddAssign (Ident ''size'')
          (Call (Ident ''int64'') [Binop (Ident ''numBuckets'') ''*'' (LitInt 176)])]"
  by (simp add: eval_nat_numeral ex_gen_def newSizegen_def ex_sizes_def Let_def isString_def
      size_id_def map_block_def sizeStmtForMap_def forLoopVars_def sizeOfBucket_def
      int64_wrap_def bucketCnt_def sizeofHmap_def hmap_probe_def)

text \<open>
  C2, amended: for every map field (of non-zero size) with key type K and value
  type V whose key and value walks return, the generated statement is a non-nil guard
  whose block is: the static header charge \<open>int64(48)\<close>; the probes of the live map
  header; the old-buckets term \<open>size += int64(numOldBuckets * B)\<close>, charged
  unconditionally; the buckets term \<open>size += int64(numBuckets * B)\<close>, charged only
  under \<open>if len(field) > 0 || numBuckets > 1\<close>; and the element loop iff the key or
  the value walk gives a statement. \<open>B\<close> is \<open>8 + 8*sizeof(K) + 8*sizeof(V) + 8\<close>
  in \<open>int64\<close> arithmetic, the last 8 being a constant of the source, and equals that
  sum whenever it is below \<open>2^63\<close>. The flag \<open>codeWithUnsafe\<close> is set.
\<close>

theorem sizeStmtForType_map:
  assumes "sizes s (Map k v) \<noteq> 0"
    and "sizeStmtForType d G (Ident ''k'') k False s = Ok ((keySize, keyFlag), s1)"
    and "sizeStmtForType d G (Ident ''v'') v False s1 = Ok ((valSize, valFlag), s2)"
  shows "sizeStmtForType (Suc d) G fieldName (Map k v) alloc s =
           Ok ((Some (IfStmt (Binop fieldName ''!='' NilLit)
                  ([AddAssign (Ident ''size'') (LitInt64 48),
                    Define [Ident ''hmap''] (Call (Qual ''reflect'' ''ValueOf'') [fieldName]),
                    Define [Ident ''numBuckets'']
                      (Call (Ident ''int'')
                        [Call (Qual ''math'' ''Pow'')
                          [LitInt 2, Call (Ident ''float64'') [hmap_probe ''uint8'' 9]]]),
                    Define [Ident ''numOldBuckets''] (hmap_probe ''uint16'' 10),
                    AddAssign (Ident ''size'')
                      (Call (Ident ''int64'')
                        [Binop (Ident ''numOldBuckets'') ''*'' (LitInt (sizeOfBucket s k v))]),
                    IfStmt
                      (Binop (Binop (Call (Ident ''len'') [fieldName]) ''>'' (LitInt 0)) ''||''
                             (Binop (Ident ''numBuckets'') ''>'' (LitInt 1)))
                      [AddAssign (Ident ''size'')
                        (Call (Ident ''int64'')
                          [Binop (Ident ''numBuckets'') ''*'' (LitInt (sizeOfBucket s k v))])]]
                   @ (if keySize = None \<and> valSize = None then []
                      else [ForRange (forLoopVars keySize valSize) fieldName
                              (case_option [] (\<lambda>x. [x]) keySize
                               @ case_option [] (\<lambda>x. [x]) valSize)]))),
                codeWithUnsafe OR keyFlag OR valFlag), s2) \<and>
         sizeOfBucket s k v = int64_wrap (8 + 8 * sizes s k + 8 * sizes s v + 8) \<and>
         (0 \<le> sizes s k \<and> 0 \<le> sizes s v \<and> 8 + 8 * sizes s k + 8 * sizes s v + 8 < 2 ^ 63
            \<longrightarrow> sizeOfBucket s k v = 8 + 8 * sizes s k + 8 * sizes s v + 8)"
proof (intro conjI impI)
  show "sizeStmtForType (Suc d) G fieldName (Map k v) alloc s =
           Ok ((Some (IfStmt (Binop fieldName ''!='' NilLit)
                  ([AddAssign (Ident ''size'') (LitInt64 48),
                    Define [Ident ''hmap''] (Call (Qual ''reflect'' ''ValueOf'') [fieldName]),
                    Define [Ident ''numBuckets'']
                      (Call (Ident ''int'')
                        [Call (Qual ''math'' ''Pow'')
                          [LitInt 2, Call (Ident ''float64'') [hmap_probe ''uint8'' 9]]]),
                    Define [Ident ''numOldBuckets''] (hmap_probe ''uint16'' 10),
                    AddAssign (Ident ''size'')
                      (Call (Ident ''int64'')
                        [Binop (Ident ''numOldBuckets'') ''*'' (LitInt (sizeOfBucket s k v))]),
                    IfStmt
                      (Binop (Binop (Call (Ident ''len'') [fieldName]) ''>'' (LitInt 0)) ''||''
                             (Binop (Ident ''numBuckets'') ''>'' (LitInt 1)))
                      [AddAssign (Ident ''size'')
                        (Call (Ident ''int64'')
                          [Binop (Ident ''numBuckets'') ''*'' (LitInt (sizeOfBucket s k v))])]]
                   @ (if keySize = None \<and> valSize = None then []
                      else [ForRange (forLoopVars keySize valSize) fieldName
                              (case_option [] (\<lambda>x. [x]) keySize
                               @ case_option [] (\<lambda>x. [x]) valSize)]))),
                codeWithUnsafe OR keyFlag OR valFlag), s2)"
    using assms
    by (simp add: map_block_def sizeStmtForMap_def size_id_def sizeofHmap_def)
  show "sizeOfBucket s k v = int64_wrap (8 + 8 * sizes s k + 8 * sizes s v + 8)"
    by (simp add: sizeOfBucket_def bucketCnt_def)
  assume "0 \<le> sizes s k \<and> 0 \<le> sizes s v \<and> 8 + 8 * sizes s k + 8 * sizes s v + 8 < 2 ^ 63"
  then show "sizeOfBucket s k v = 8 + 8 * sizes s k + 8 * sizes s v + 8"
    by (simp add: sizeOfBucket_def bucketCnt_def int64_wrap_def)
qed

theorem sizeStmtForType_map_witness:
  "sizes ex_gen (Map (Basic String) (Basic Int32)) \<noteq> 0 \<and>
   sizeStmtForType 1 ex_prog (Ident ''k'') (Basic String) False ex_gen =
     Ok ((Some (AddAssign (Ident ''size'')
                  (Call (Ident ''int64'') [Call (Ident ''len'') [Ident ''k'']])), 0), ex_gen) \<and>
   sizeStmtForType 1 ex_prog (Ident ''v'') (Basic Int32) False ex_gen = Ok ((None, 0), ex_gen) \<and>
   sizeOfBucket ex_gen (Basic String) (Basic Int32) = 176 \<and>
   (\<exists>blk. sizeStmtForType 2 ex_prog (Dot (Ident ''cached'') ''m'')
             (Map (Basic String) (Basic Int32)) False ex_gen =
           Ok ((Some (IfStmt (Binop (Dot (Ident ''cached'') ''m'') ''!='' NilLit) blk),
                codeWithUnsafe), ex_gen) \<and>
          length blk = 7 \<and>
          blk ! 6 = ForRange [Ident ''k''] (Dot (Ident ''cached'') ''m'')
                      [AddAssign (Ident ''size'')
                         (Call (Ident ''int64'') [Call (Ident ''len'') [Ident ''k'']])])"
proof -
  have h1: "sizes ex_gen (Map (Basic String) (Basic Int32)) \<noteq> 0"
    by (simp add: ex_gen_def newSizegen_def ex_sizes_def)
  have h2: "sizeStmtForType (Suc 0) ex_prog (Ident ''k'') (Basic String) False ex_gen =
     Ok ((Some (AddAssign (Ident ''size'')
                  (Call (Ident ''int64'') [Call (Ident ''len'') [Ident ''k'']])), 0), ex_gen)"
    by (simp add: ex_gen_def newSizegen_def ex_sizes_def isString_def size_id_def)
  have h3: "sizeStmtForType (Suc 0) ex_prog (Ident ''v'') (Basic Int32) False ex_gen =
     Ok ((None, 0), ex_gen)"
    by (simp add: ex_gen_def newSizegen_def ex_sizes_def isString_def size_id_def)
  have h4: "sizes ex_gen (Basic String) = 16" "sizes ex_gen (Basic Int32) = 4"
    by (simp_all add: ex_gen_def newSizegen_def ex_sizes_def)
  show ?thesis
    using sizeStmtForType_map [OF h1 h2 h3, of "Dot (Ident ''cached'') ''m''" False] h1 h2 h3 h4
    by (simp add: eval_nat_numeral forLoopVars_def)
qed

text \<open>
  C6, as the spec states it: for a slice whose element size is not 1 the charge would
  be followed by a loop over the slice. For a field \<open>xs\<close> of type \<open>[]int64\<close>
  (element size 8) the generated statement is the charge alone, with no loop.
\<close>

theorem sizeStmtForType_slice_counterexample:
  "sizes ex_gen (Basic Int64) = 8 \<and>
   sizeStmtForType 2 ex_prog (Dot (Ident ''cached'') ''xs'') (Slice (Basic Int64)) False ex_gen =
     Ok ((Some (Block
            [AddAssign (Ident ''size'')
               (Binop (Call (Ident ''int64'') [Call (Ident ''cap'') [Dot (Ident ''cached'') ''xs'']])
                      ''*'' (LitInt64 8))]), 0), ex_gen)"
  by (simp add: eval_nat_numeral ex_gen_def newSizegen_def ex_sizes_def Let_def isString_def
      size_id_def)

text \<open>
  C6, amended: for every slice field (of non-zero size) with element type T: when
  \<open>sizeof(T) = 0\<close> there is no statement; when \<open>sizeof(T) = 1\<close> the statement is the
  charge \<open>size += int64(cap(field))\<close> and nothing else; otherwise, when the walk of
  an element as a non-pointer reference returns, the statement is a block that
  charges \<open>int64(cap(field)) * int64(sizeof(T))\<close>, followed by a loop over the slice
  exactly when that walk gives a statement, the loop's body being that statement; the
  flags are those of the element walk.
\<close>

theorem sizeStmtForType_slice:
  assumes "sizes s (Slice T) \<noteq> 0"
  shows "(sizes s T = 0 \<longrightarrow>
            sizeStmtForType (Suc d) G fieldName (Slice T) alloc s = Ok ((None, 0), s)) \<and>
         (sizes s T = 1 \<longrightarrow>
            sizeStmtForType (Suc d) G fieldName (Slice T) alloc s =
              Ok ((Some (AddAssign (Ident ''size'')
                           (Call (Ident ''int64'') [Call (Ident ''cap'') [fieldName]])), 0), s)) \<and>
         (sizes s T \<noteq> 0 \<and> sizes s T \<noteq> 1 \<and>
          sizeStmtForType d G (Ident ''elem'') T False s = Ok ((None, flag), s') \<longrightarrow>
            sizeStmtForType (Suc d) G fieldName (Slice T) alloc s =
              Ok ((Some (Block
                     [AddAssign (Ident ''size'')
                        (Binop (Call (Ident ''int64'') [Call (Ident ''cap'') [fieldName]])
                               ''*'' (LitInt64 (sizes s T)))]), flag), s')) \<and>
         (sizes s T \<noteq> 0 \<and> sizes s T \<noteq> 1 \<and>
          sizeStmtForType d G (Ident ''elem'') T False s = Ok ((Some st, flag), s') \<longrightarrow>
            sizeStmtForType (Suc d) G fieldName (Slice T) alloc s =
              Ok ((Some (Block
                     [AddAssign (Ident ''size'')
                        (Binop (Call (Ident ''int64'') [Call (Ident ''cap'') [fieldName]])
                               ''*'' (LitInt64 (sizes s T))),
                      ForRange [Ident ''_'', Ident ''elem''] fieldName [st]]), flag), s'))"
  using assms by (simp add: Let_def size_id_def)

theorem sizeStmtForType_slice_witness:
  "sizes ex_gen (Slice (Basic String)) \<noteq> 0 \<and>
   sizes ex_gen (Basic String) = 16 \<and>
   sizeStmtForType 1 ex_prog (Ident ''elem'') (Basic String) False ex_gen =
     Ok ((Some (AddAssign (Ident ''size'')
                  (Call (Ident ''int64'') [Call (Ident ''len'') [Ident ''elem'']])), 0), ex_gen) \<and>
   sizeStmtForType 2 ex_prog (Dot (Ident ''cached'') ''names'') (Slice (Basic String)) False ex_gen =
     Ok ((Some (Block
            [AddAssign (Ident ''size'')
               (Binop (Call (Ident ''int64'')
                         [Call (Ident ''cap'') [Dot (Ident ''cached'') ''names'']])
                      ''*'' (LitInt64 16)),
             ForRange [Ident ''_'', Ident ''elem''] (Dot (Ident ''cached'') ''names'')
               [AddAssign (Ident ''size'')
                  (Call (Ident ''int64'') [Call (Ident ''len'') [Ident ''elem'']])]]), 0), ex_gen) \<and>
   sizeStmtForType 2 ex_prog (Dot (Ident ''cached'') ''raw'') (Slice (Basic Uint8)) False ex_gen =
     Ok ((Some (AddAssign (Ident ''size'')
                  (Call (Ident ''int64'') [Call (Ident ''cap'') [Dot (Ident ''cached'') ''raw'']])),
          0), ex_gen)"
proof -
  have h1: "sizes ex_gen (Slice (Basic String)) \<noteq> 0" "sizes ex_gen (Slice (Basic Uint8)) \<noteq> 0"
    by (simp_all add: ex_gen_def newSizegen_def ex_sizes_def)
  have h2: "sizes ex_gen (Basic String) = 16" "sizes ex_gen (Basic Uint8) = 1"
    by (simp_all add: ex_gen_def newSizegen_def ex_sizes_def)
  have h3: "sizeStmtForType (Suc 0) ex_prog (Ident ''elem'') (Basic String) False ex_gen =
     Ok ((Some (AddAssign (Ident ''size'')
                  (Call (Ident ''int64'') [Call (Ident ''len'') [Ident ''elem'']])), 0), ex_gen)"
    by (simp add: ex_gen_def newSizegen_def ex_sizes_def isString_def size_id_def)
  show ?thesis
    using sizeStmtForType_slice [OF h1(1), of "Suc 0" ex_prog "Dot (Ident ''cached'') ''names''"
        False 0 ex_gen
        "AddAssign (Ident ''size'') (Call (Ident ''int64'') [Call (Ident ''len'') [Ident ''elem'']])"]
      sizeStmtForType_slice [OF h1(2), of "Suc 0" ex_prog "Dot (Ident ''cached'') ''raw''" False]
      h1 h2 h3
    by (simp add: eval_nat_numeral)
qed

section \<open>Properties of sizeImplForStruct\<close>

lemma field_loop_walk_fields:
  "field_loop d G fs acc fl s =
     (case walk_fields d G fs s of
        Ok ((stmts, flags), s') \<Rightarrow> Ok ((acc @ stmts, fl OR flags), s')
      | Panics p \<Rightarrow> Panics p
      | OutOfFuel \<Rightarrow> OutOfFuel)"
proof (induction fs arbitrary: acc fl s)
  case Nil
  then show ?case by simp
next
  case (Cons field rest)
  show ?case
  proof (cases "sizeStmtForType d G (Dot (Ident ''cached'') (fst field)) (snd field) False s")
    case (Ok x)
    obtain fieldStmt flag s' where x: "x = ((fieldStmt, flag), s')"
      by (cases x) auto
    show ?thesis
      using Ok x Cons.IH
      by (auto simp: field_stmts_def word_bw_assocs split: result.splits option.splits)
  qed simp_all
qed

text \<open>
  C5. The method synthesized for a named struct type of non-zero static size, when
  the walks of its fields return: its receiver is \<open>cached *Name\<close>; its body returns
  0 when the receiver is nil, initializes the accumulator \<open>size\<close> to 0, adds
  \<open>sizeof(struct)\<close> under \<open>if alloc\<close>, then holds the walker's statements of the
  fields in declaration order, each walked with under_pointer = false
  (\<open>walk_fields\<close>), and returns the accumulator.
\<close>

theorem sizeImplForStruct_shape:
  assumes "sizes s (Struct st) \<noteq> 0"
    and "walk_fields d G st s = Ok ((stmts, flags), s')"
  shows "sizeImplForStruct d G name st s =
           Ok ((Some \<lparr>recv_name = ''cached'', recv_type = Star (Ident name),
                      func_name = ''CachedSize'', func_params = [(''alloc'', ''bool'')],
                      func_result = ''int64'',
                      func_body =
                        [IfStmt (Binop (Ident ''cached'') ''=='' NilLit) [Return (LitInt64 0)],
                         Define [Ident ''size''] (LitInt64 0),
                         IfStmt (Ident ''alloc'')
                           [AddAssign (Ident ''size'') (LitInt64 (sizes s (Struct st)))]]
                        @ stmts @ [Return (Ident ''size'')]\<rparr>,
                flags), s')"
  using assms
  by (simp add: sizeImplForStruct_def field_loop_walk_fields cachedSize_func_def size_id_def)

theorem sizeImplForStruct_shape_witness:
  "sizes ex_gen (Struct [(''a'', Pointer (Named 0)), (''xs'', Slice (Basic Int64))]) \<noteq> 0 \<and>
   sizeImplForStruct 3 ex_prog ''B'' [(''a'', Pointer (Named 0)), (''xs'', Slice (Basic Int64))]
       ex_gen =
     Ok ((Some \<lparr>recv_name = ''cached'', recv_type = Star (Ident ''B''),
                func_name = ''CachedSize'', func_params = [(''alloc'', ''bool'')],
                func_result = ''int64'',
                func_body =
                  [IfStmt (Binop (Ident ''cached'') ''=='' NilLit) [Return (LitInt64 0)],
                   Define [Ident ''size''] (LitInt64 0),
                   IfStmt (Ident ''alloc'') [AddAssign (Ident ''size'') (LitInt64 16)],
                   FieldComment ''a'' (Pointer (Named 0)),
                   AddAssign (Ident ''size'')
                     (Call (Dot (Dot (Ident ''cached'') ''a'') ''CachedSize'') [LitBool True]),
                   FieldComment ''xs'' (Slice (Basic Int64)),
                   Block [AddAssign (Ident ''size'')
                     (Binop (Call (Ident ''int64'')
                               [Call (Ident ''cap'') [Dot (Ident ''cached'') ''xs'']])
                            ''*'' (LitInt64 8))],
                   Return (Ident ''size'')]\<rparr>, 0),
         ex_gen\<lparr>known := [0 \<mapsto> \<lparr>generated = False, local = True, pod = False\<rparr>]\<rparr>)"
proof -
  have h1: "sizes ex_gen (Struct [(''a'', Pointer (Named 0)), (''xs'', Slice (Basic Int64))]) \<noteq> 0"
    by (simp add: ex_gen_def newSizegen_def ex_sizes_def)
  have h2: "walk_fields 3 ex_prog [(''a'', Pointer (Named 0)), (''xs'', Slice (Basic Int64))] ex_gen =
    Ok (([FieldComment ''a'' (Pointer (Named 0)),
          AddAssign (Ident ''size'')
            (Call (Dot (Dot (Ident ''cached'') ''a'') ''CachedSize'') [LitBool True]),
          FieldComment ''xs'' (Slice (Basic Int64)),
          Block [AddAssign (Ident ''size'')
            (Binop (Call (Ident ''int64'') [Call (Ident ''cap'') [Dot (Ident ''cached'') ''xs'']])
                   ''*'' (LitInt64 8))]], 0),
        ex_gen\<lparr>known := [0 \<mapsto> \<lparr>generated = False, local = True, pod = False\<rparr>]\<rparr>)"
    by (simp add: eval_nat_numeral ex_gen_def newSizegen_def ex_sizes_def ex_prog_def ex_decl_def
        ex_pkg_def ex_mod_def getKnownType_def Let_def isString_def size_id_def field_stmts_def)
  have h3: "sizes ex_gen (Struct [(''a'', Pointer (Named 0)), (''xs'', Slice (Basic Int64))]) = 16"
    by (simp add: ex_gen_def newSizegen_def ex_sizes_def)
  show ?thesis
    using sizeImplForStruct_shape [OF h1 h2, of "''B''"] h1 h3 by simp
qed

section \<open>The walker does not depend on the registry\<close>

text \<open>
  From two consistent generators with the same module and sizes the walker gives the
  same statement and adds the same entries, each with the flags of a first lookup.
\<close>

lemma init_entries_empty [simp]: "init_entries G m Map.empty"
  by (simp add: init_entries_def)

lemma init_entries_add:
  "init_entries G m K1 \<Longrightarrow> init_entries G m K2 \<Longrightarrow> init_entries G m (K2 ++ K1)"
  by (auto simp: init_entries_def map_add_def split: option.splits)

lemma init_entries_single [simp]: "init_entries G m [n \<mapsto> init_ts G m n]"
  by (simp add: init_entries_def)

lemma consistent_add:
  "consistent G s \<and> init_entries G (mod' s) K \<Longrightarrow> consistent G (s\<lparr>known := K ++ known s\<rparr>)"
  unfolding consistent_def init_entries_def
proof (intro allI impI)
  fix n ts
  assume a: "(\<forall>n ts. known s n = Some ts \<longrightarrow>
                local ts = local_of G (mod' s) n \<and> pod ts = isPod (Underlying (Decl G n))) \<and>
             (\<forall>n ts. K n = Some ts \<longrightarrow> ts = init_ts G (mod' s) n)"
    and b: "known (s\<lparr>known := K ++ known s\<rparr>) n = Some ts"
  show "local ts = local_of G (mod' (s\<lparr>known := K ++ known s\<rparr>)) n \<and>
        pod ts = isPod (Underlying (Decl G n))"
  proof (cases "known s n")
    case None
    with b have "K n = Some ts" by (simp add: map_add_def)
    with a have "ts = init_ts G (mod' s) n" by blast
    then show ?thesis by (simp add: init_ts_def)
  next
    case (Some ts')
    with b have "ts' = ts" by (simp add: map_add_def)
    with a Some show ?thesis by simp
  qed
qed

lemma getKnownType_consistent:
  assumes "consistent G s"
  shows "\<exists>ts. getKnownType G n s = (ts, s\<lparr>known := [n \<mapsto> init_ts G (mod' s) n] ++ known s\<rparr>) \<and>
           local ts = local_of G (mod' s) n \<and> pod ts = isPod (Underlying (Decl G n)) \<and>
           generated ts = (case known s n of None \<Rightarrow> False | Some ts' \<Rightarrow> generated ts')"
proof (cases "known s n")
  case None
  have "[n \<mapsto> init_ts G (mod' s) n] ++ known s = (known s)(n \<mapsto> init_ts G (mod' s) n)"
    using None by (auto simp: map_add_def fun_eq_iff split: option.splits)
  then show ?thesis
    using None by (simp add: getKnownType_def Let_def init_ts_def local_of_def)
next
  case (Some ts)
  have "[n \<mapsto> init_ts G (mod' s) n] ++ known s = known s"
    using Some by (auto simp: map_add_def fun_eq_iff split: option.splits)
  then show ?thesis
    using Some assms by (simp add: getKnownType_def consistent_def)
qed

lemma walker_indep:
  assumes "consistent G s" "consistent G t" "mod' t = mod' s" "sizes t = sizes s"
    and "sizeStmtForType d G f ty a s = Ok (r, s')"
  shows "\<exists>K. init_entries G (mod' s) K \<and> s' = s\<lparr>known := K ++ known s\<rparr> \<and>
           sizeStmtForType d G f ty a t = Ok (r, t\<lparr>known := K ++ known t\<rparr>)"
  using assms
proof (induction d arbitrary: f ty a s t r s')
  case 0
  then show ?case by simp
next
  case (Suc d)
  note cs = Suc.prems(1) and ct = Suc.prems(2) and em = Suc.prems(3) and es = Suc.prems(4)
  note run = Suc.prems(5)
  have triv: "\<And>r0. sizeStmtForType (Suc d) G f ty a s = Ok (r0, s) \<Longrightarrow>
       sizeStmtForType (Suc d) G f ty a t = Ok (r0, t) \<Longrightarrow> r = r0 \<and> s' = s \<Longrightarrow> ?case"
    by (rule exI [of _ Map.empty]) simp
  show ?case
  proof (cases "sizes s ty = 0")
    case True
    then show ?thesis using run es by (intro triv [of "(None, 0)"]) auto
  next
    case nz: False
    show ?thesis
    proof (cases ty)
      case (Basic k)
      then show ?thesis using run es nz
        by (intro triv [of r]) (auto split: if_splits)
    next
      case (Struct fs)
      then show ?thesis using run es nz
        by (intro triv [of r]) (auto split: if_splits)
    next
      case (Interface ms)
      then show ?thesis using run es nz
        by (intro triv [of r]) (auto split: if_splits)
    next
      case (Array n e)
      then show ?thesis using run es nz
        by (intro triv [of r]) (auto split: if_splits)
    next
      case (Chan e)
      then show ?thesis using run es nz
        by (intro triv [of r]) (auto split: if_splits)
    next
      case Signature
      then show ?thesis using run es nz
        by (intro triv [of r]) (auto split: if_splits)
    next
      case (Pointer e)
      with run nz have "sizeStmtForType d G f e True s = Ok (r, s')" by simp
      from Suc.IH [OF cs ct em es this] show ?thesis using Pointer nz es by simp
    next
      case (Slice e)
      show ?thesis
      proof (cases "sizes s e = 0 \<or> sizes s e = 1")
        case True
        then show ?thesis using run es nz Slice
          by (intro triv [of r]) (auto simp: Let_def split: if_splits)
      next
        case False
        then obtain st fl where
          inner: "sizeStmtForType d G (Ident ''elem'') e False s = Ok ((st, fl), s')"
          using run nz Slice by (auto simp: Let_def split: result.splits)
        from Suc.IH [OF cs ct em es inner] obtain K where
          K: "init_entries G (mod' s) K" "s' = s\<lparr>known := K ++ known s\<rparr>"
             "sizeStmtForType d G (Ident ''elem'') e False t = Ok ((st, fl), t\<lparr>known := K ++ known t\<rparr>)"
          by blast
        show ?thesis
          apply (rule exI [of _ K])
          using K False run nz Slice es inner by (auto simp: Let_def)
      qed
    next
      case (Map k v)
      from run nz Map obtain ks kf s1 vs vf where
        r1: "sizeStmtForType d G (Ident ''k'') k False s = Ok ((ks, kf), s1)" and
        r2: "sizeStmtForType d G (Ident ''v'') v False s1 = Ok ((vs, vf), s')" and
        r: "r = (Some (IfStmt (Binop f ''!='' NilLit) (map_block s f k v ks vs)),
                 codeWithUnsafe OR kf OR vf)"
        by (auto split: result.splits)
      from Suc.IH [OF cs ct em es r1] obtain K1 where
        K1: "init_entries G (mod' s) K1" "s1 = s\<lparr>known := K1 ++ known s\<rparr>"
            "sizeStmtForType d G (Ident ''k'') k False t = Ok ((ks, kf), t\<lparr>known := K1 ++ known t\<rparr>)"
        by blast
      let ?t1 = "t\<lparr>known := K1 ++ known t\<rparr>"
      have cs1: "consistent G s1" using K1 cs by (simp add: consistent_add)
      have ct1: "consistent G ?t1" using K1 ct em by (simp add: consistent_add)
      have em1: "mod' ?t1 = mod' s1" "sizes ?t1 = sizes s1" using K1 em es by simp_all
      from Suc.IH [OF cs1 ct1 em1 r2] obtain K2 where
        K2: "init_entries G (mod' s1) K2" "s' = s1\<lparr>known := K2 ++ known s1\<rparr>"
            "sizeStmtForType d G (Ident ''v'') v False ?t1 = Ok ((vs, vf), ?t1\<lparr>known := K2 ++ known ?t1\<rparr>)"
        by blast
      have mb: "map_block t f k v ks vs = map_block s f k v ks vs"
        using es by (simp add: map_block_def sizeStmtForMap_def sizeOfBucket_def)
      show ?thesis
        apply (rule exI [of _ "K2 ++ K1"])
        using K1 K2 r nz Map es mb by (simp add: init_entries_add)
    next
      case (Named n)
      from getKnownType_consistent [OF cs, of n] obtain ts where
        gs: "getKnownType G n s = (ts, s\<lparr>known := [n \<mapsto> init_ts G (mod' s) n] ++ known s\<rparr>)"
            "local ts = local_of G (mod' s) n" "pod ts = isPod (Underlying (Decl G n))"
        by blast
      from getKnownType_consistent [OF ct, of n] obtain ts' where
        gt: "getKnownType G n t = (ts', t\<lparr>known := [n \<mapsto> init_ts G (mod' t) n] ++ known t\<rparr>)"
            "local ts' = local_of G (mod' t) n" "pod ts' = isPod (Underlying (Decl G n))"
        by blast
      let ?K0 = "[n \<mapsto> init_ts G (mod' s) n]"
      let ?s1 = "s\<lparr>known := ?K0 ++ known s\<rparr>"
      let ?t1 = "t\<lparr>known := ?K0 ++ known t\<rparr>"
      show ?thesis
      proof (cases "pod ts \<or> \<not> local ts")
        case True
        then have pt: "pod ts' \<or> \<not> local ts'" using gs gt em by simp
        have rs: "s' = ?s1"
          "r = (if a then (Some (IfStmt (Binop f ''!='' NilLit)
                  [AddAssign size_id (LitInt64 (sizes s (Underlying (Decl G n))))]), 0)
                else (None, 0))"
          using True run nz Named gs by (auto split: if_splits)
        have "sizeStmtForType (Suc d) G f ty a t = Ok (r, ?t1)"
          using pt rs nz Named gt em es by (auto split: if_splits)
        moreover have "init_entries G (mod' s) ?K0" by simp
        ultimately show ?thesis
          using rs by blast
      next
        case False
        then have inner: "sizeStmtForType d G f (Underlying (Decl G n)) a ?s1 = Ok (r, s')"
          using run nz Named gs by auto
        have cs1: "consistent G ?s1" using cs by (simp add: consistent_add)
        have ct1: "consistent G ?t1" using ct em by (simp add: consistent_add)
        have em1: "mod' ?t1 = mod' ?s1" "sizes ?t1 = sizes ?s1" using em es by simp_all
        from Suc.IH [OF cs1 ct1 em1 inner] obtain K where
          K: "init_entries G (mod' ?s1) K" "s' = ?s1\<lparr>known := K ++ known ?s1\<rparr>"
             "sizeStmtForType d G f (Underlying (Decl G n)) a ?t1 = Ok (r, ?t1\<lparr>known := K ++ known ?t1\<rparr>)"
          by blast
        have "sizeStmtForType (Suc d) G f ty a t = Ok (r, ?t1\<lparr>known := K ++ known ?t1\<rparr>)"
          using K(3) False nz Named gs gt em es by auto
        moreover have "init_entries G (mod' s) (K ++ ?K0)"
          using K(1) by (intro init_entries_add) simp_all
        moreover have "s' = s\<lparr>known := (K ++ ?K0) ++ known s\<rparr>"
          using K(2) by simp
        moreover have "?t1\<lparr>known := K ++ known ?t1\<rparr> = t\<lparr>known := (K ++ ?K0) ++ known t\<rparr>"
          by simp
        ultimately show ?thesis
          by metis
      qed
    qed
  qed
qed

lemma sizeStmtForType_not_Panics: "sizeStmtForType d G f ty a s \<noteq> Panics p"
proof (induction d arbitrary: f ty a s)
  case 0
  then show ?case by simp
next
  case (Suc d)
  show ?case
  proof (cases ty)
    case (Named n)
    then show ?thesis
      using Suc.IH by (cases "getKnownType G n s") (auto split: if_splits)
  qed (use Suc.IH in \<open>auto simp: Let_def split: if_splits result.splits\<close>)
qed

lemma field_loop_indep:
  assumes "consistent G s" "consistent G t" "mod' t = mod' s" "sizes t = sizes s"
    "DebugTypes t = DebugTypes s"
    and "field_loop d G fs acc fl s = Ok (r, s')"
  shows "\<exists>K. init_entries G (mod' s) K \<and> s' = s\<lparr>known := K ++ known s\<rparr> \<and>
           field_loop d G fs acc fl t = Ok (r, t\<lparr>known := K ++ known t\<rparr>)"
  using assms
proof (induction fs arbitrary: acc fl s t)
  case Nil
  then show ?case by (intro exI [of _ Map.empty]) auto
next
  case (Cons field rest)
  from Cons.prems(6) obtain st flag s1 where
    w: "sizeStmtForType d G (Dot (Ident ''cached'') (fst field)) (snd field) False s
          = Ok ((st, flag), s1)"
    by (auto split: result.splits)
  from walker_indep [OF Cons.prems(1-4) w] obtain K1 where
    K1: "init_entries G (mod' s) K1" "s1 = s\<lparr>known := K1 ++ known s\<rparr>"
        "sizeStmtForType d G (Dot (Ident ''cached'') (fst field)) (snd field) False t
           = Ok ((st, flag), t\<lparr>known := K1 ++ known t\<rparr>)"
    by blast
  let ?t1 = "t\<lparr>known := K1 ++ known t\<rparr>"
  let ?acc = "case st of None \<Rightarrow> acc
     | Some x \<Rightarrow> (if DebugTypes s then acc @ [FieldComment (fst field) (snd field)] else acc) @ [x]"
  have cs1: "consistent G s1" using K1 Cons.prems(1) by (simp add: consistent_add)
  have ct1: "consistent G ?t1" using K1 Cons.prems(2,3) by (simp add: consistent_add)
  have e1: "mod' ?t1 = mod' s1" "sizes ?t1 = sizes s1" "DebugTypes ?t1 = DebugTypes s1"
    using K1 Cons.prems(3-5) by simp_all
  have rest: "field_loop d G rest ?acc (fl OR flag) s1 = Ok (r, s')"
    using Cons.prems(6) w by simp
  from Cons.IH [OF cs1 ct1 e1 rest] obtain K2 where
    K2: "init_entries G (mod' s1) K2" "s' = s1\<lparr>known := K2 ++ known s1\<rparr>"
        "field_loop d G rest ?acc (fl OR flag) ?t1 = Ok (r, ?t1\<lparr>known := K2 ++ known ?t1\<rparr>)"
    by blast
  have "field_loop d G (field # rest) acc fl t = Ok (r, t\<lparr>known := (K2 ++ K1) ++ known t\<rparr>)"
    using K1(3) K2(3) Cons.prems(5) by (cases "DebugTypes s"; cases st; simp)
  moreover have "init_entries G (mod' s) (K2 ++ K1)"
    using K1(1,2) K2(1) by (intro init_entries_add) simp_all
  moreover have "s' = s\<lparr>known := (K2 ++ K1) ++ known s\<rparr>"
    using K1(2) K2(2) by simp
  ultimately show ?case by blast
qed

lemma sizeImplForStruct_indep:
  assumes "consistent G s" "consistent G t" "mod' t = mod' s" "sizes t = sizes s"
    "DebugTypes t = DebugTypes s"
    and "sizeImplForStruct d G nm fs s = Ok (r, s')"
  shows "\<exists>K. init_entries G (mod' s) K \<and> s' = s\<lparr>known := K ++ known s\<rparr> \<and>
           sizeImplForStruct d G nm fs t = Ok (r, t\<lparr>known := K ++ known t\<rparr>)"
proof (cases "sizes s (Struct fs) = 0")
  case True
  then show ?thesis
    using assms by (intro exI [of _ Map.empty]) (auto simp: sizeImplForStruct_def)
next
  case False
  with assms(6) obtain stmt fl where
    l: "field_loop d G fs [] 0 s = Ok ((stmt, fl), s')" and
    r: "r = (Some (cachedSize_func nm (sizes s (Struct fs)) stmt), fl)"
    by (auto simp: sizeImplForStruct_def split: result.splits)
  from field_loop_indep [OF assms(1-5) l] obtain K where
    K: "init_entries G (mod' s) K" "s' = s\<lparr>known := K ++ known s\<rparr>"
       "field_loop d G fs [] 0 t = Ok ((stmt, fl), t\<lparr>known := K ++ known t\<rparr>)"
    by blast
  have "sizeImplForStruct d G nm fs t = Ok (r, t\<lparr>known := K ++ known t\<rparr>)"
    using K(3) r False assms(4) by (simp add: sizeImplForStruct_def)
  with K show ?thesis by blast
qed

lemma field_loop_not_Panics: "field_loop d G fs acc fl s \<noteq> Panics p"
  by (induction fs arbitrary: acc fl s)
     (auto simp: sizeStmtForType_not_Panics split: result.splits)

lemma sizeImplForStruct_not_Panics: "sizeImplForStruct d G nm fs s \<noteq> Panics p"
  by (auto simp: sizeImplForStruct_def field_loop_not_Panics split: result.splits)

section \<open>At most one entry per named type\<close>

lemma step_refl [simp]: "step s s"
  by (simp add: step_def)

lemma step_trans: "step s t \<Longrightarrow> step t u \<Longrightarrow> step s u"
  unfolding step_def by (intro conjI) (simp_all, blast+)

lemma getKnownType_mark:
  assumes "consistent G s" and "getKnownType G n s = (ts, s1)"
  shows "s1\<lparr>known := (known s1)(n \<mapsto> ts\<lparr>generated := True\<rparr>)\<rparr> = mark G n s"
    and "generated ts = is_generated s n"
proof -
  from getKnownType_consistent [OF assms(1), of n] assms(2)
  have a: "s1 = s\<lparr>known := [n \<mapsto> init_ts G (mod' s) n] ++ known s\<rparr>"
    "local ts = local_of G (mod' s) n" "pod ts = isPod (Underlying (Decl G n))"
    "generated ts = (case known s n of None \<Rightarrow> False | Some ts' \<Rightarrow> generated ts')"
    by auto
  have "ts\<lparr>generated := True\<rparr> =
        \<lparr>generated = True, local = local_of G (mod' s) n, pod = isPod (Underlying (Decl G n))\<rparr>"
    using a(2,3) by (cases ts) simp
  moreover have "([n \<mapsto> init_ts G (mod' s) n] ++ known s)(n \<mapsto> x) = (known s)(n \<mapsto> x)" for x
    by (auto simp: fun_eq_iff map_add_def split: option.splits)
  ultimately show "s1\<lparr>known := (known s1)(n \<mapsto> ts\<lparr>generated := True\<rparr>)\<rparr> = mark G n s"
    using a(1) by (simp add: mark_def)
  show "generated ts = is_generated s n"
    using a(4) by (simp add: is_generated_def)
qed

lemma getKnownType_generated_same:
  assumes "getKnownType G n s = (ts, s1)" "generated ts"
  shows "s1 = s"
  using assms by (auto simp: getKnownType_def Let_def split: option.splits)

lemma is_generated_mark: "is_generated (mark G n s) m = (m = n \<or> is_generated s m)"
  by (simp add: is_generated_def mark_def)

lemma is_generated_add:
  "init_entries G m K \<Longrightarrow> is_generated (s\<lparr>known := K ++ known s\<rparr>) x = is_generated s x"
proof (cases "known s x")
  case None
  assume i: "init_entries G m K"
  show ?thesis
  proof (cases "K x")
    case n: None
    with None show ?thesis by (simp add: is_generated_def map_add_def)
  next
    case (Some ts)
    with i have "ts = init_ts G m x" unfolding init_entries_def by blast
    with None Some show ?thesis by (simp add: is_generated_def map_add_def init_ts_def)
  qed
next
  case (Some ts)
  then show ?thesis by (simp add: is_generated_def map_add_def)
qed

lemma consistent_mark: "consistent G s \<Longrightarrow> consistent G (mark G n s)"
  by (simp add: consistent_def mark_def)

lemma step_mark: "step s (mark G n s)"
  by (auto simp: step_def is_generated_mark) (simp_all add: mark_def)

lemma step_add: "init_entries G m K \<Longrightarrow> step s (s\<lparr>known := K ++ known s\<rparr>)"
  by (auto simp: step_def is_generated_add)

lemma step_append_impl: "step s (append_impl file impl s)"
  by (auto simp: step_def append_impl_def is_generated_def split: option.splits)

lemma emitted_ok_step_codegen:
  "emitted_ok G s \<Longrightarrow> codegen s' = codegen s \<Longrightarrow> (\<forall>n. is_generated s n \<longrightarrow> is_generated s' n)
   \<Longrightarrow> emitted_ok G s'"
  unfolding emitted_ok_def
proof (intro allI impI)
  fix p f i
  assume a: "\<forall>p f i. codegen s p = Some f \<and> i \<in> set (impls f) \<longrightarrow>
               (\<exists>n. impl_name i = named_String G n \<and> is_generated s n)"
    and c: "codegen s' = codegen s" and g: "\<forall>n. is_generated s n \<longrightarrow> is_generated s' n"
    and b: "codegen s' p = Some f \<and> i \<in> set (impls f)"
  from b c have "codegen s p = Some f \<and> i \<in> set (impls f)" by simp
  with a obtain n where "impl_name i = named_String G n" "is_generated s n" by blast
  with g show "\<exists>n. impl_name i = named_String G n \<and> is_generated s' n" by blast
qed

lemma inv8_mark: "inv8 G s \<Longrightarrow> inv8 G (mark G n s)"
proof -
  assume a: "inv8 G s"
  have "consistent G (mark G n s)" using a by (simp add: inv8_def consistent_mark)
  moreover have "emitted_ok G (mark G n s)"
    using a by (rule_tac emitted_ok_step_codegen [of G s])
      (simp_all add: inv8_def is_generated_mark, simp add: mark_def)
  moreover have "inj (named_String G) \<longrightarrow> unique_impls (mark G n s)"
    using a by (simp add: inv8_def unique_impls_def mark_def)
  ultimately show ?thesis by (simp add: inv8_def)
qed

lemma inv8_add:
  "inv8 G s \<Longrightarrow> init_entries G (mod' s) K \<Longrightarrow> inv8 G (s\<lparr>known := K ++ known s\<rparr>)"
proof -
  assume a: "inv8 G s" and i: "init_entries G (mod' s) K"
  have "consistent G (s\<lparr>known := K ++ known s\<rparr>)" using a i by (simp add: inv8_def consistent_add)
  moreover have "emitted_ok G (s\<lparr>known := K ++ known s\<rparr>)"
    using a i by (rule_tac emitted_ok_step_codegen [of G s])
      (simp_all add: inv8_def is_generated_add)
  moreover have "inj (named_String G) \<longrightarrow> unique_impls (s\<lparr>known := K ++ known s\<rparr>)"
    using a by (simp add: inv8_def unique_impls_def)
  ultimately show ?thesis by (simp add: inv8_def)
qed

lemma inv8_append_impl:
  assumes "inv8 G s" and "is_generated s n"
    and fresh: "inj (named_String G) \<Longrightarrow>
      \<forall>p f i. codegen s p = Some f \<and> i \<in> set (impls f) \<longrightarrow> impl_name i \<noteq> named_String G n"
  shows "inv8 G (append_impl file \<lparr>impl_name = named_String G n, impl_flags = fl, impl_code = c\<rparr> s)"
proof (cases "codegen s file")
  case None
  then show ?thesis using assms(1) by (simp add: append_impl_def)
next
  case (Some f)
  let ?i = "\<lparr>impl_name = named_String G n, impl_flags = fl, impl_code = c\<rparr>"
  let ?s = "s\<lparr>codegen := (codegen s)(file \<mapsto> f\<lparr>impls := impls f @ [?i]\<rparr>)\<rparr>"
  have eq: "append_impl file ?i s = ?s" using Some by (simp add: append_impl_def)
  have c: "consistent G ?s" using assms(1) by (simp add: inv8_def consistent_def)
  have g: "is_generated ?s = is_generated s" by (simp add: is_generated_def fun_eq_iff)
  have e: "emitted_ok G ?s"
    unfolding emitted_ok_def
  proof (intro allI impI)
    fix p f' i assume a: "codegen ?s p = Some f' \<and> i \<in> set (impls f')"
    show "\<exists>m. impl_name i = named_String G m \<and> is_generated ?s m"
    proof (cases "p = file")
      case True
      with a have "i \<in> set (impls f) \<or> i = ?i" by auto
      then show ?thesis
      proof
        assume "i \<in> set (impls f)"
        with Some assms(1) show ?thesis unfolding inv8_def emitted_ok_def g by blast
      next
        assume "i = ?i"
        with assms(2) show ?thesis unfolding g by auto
      qed
    next
      case False
      with a have "codegen s p = Some f' \<and> i \<in> set (impls f')" by simp
      with assms(1) show ?thesis unfolding inv8_def emitted_ok_def g by blast
    qed
  qed
  have u: "inj (named_String G) \<longrightarrow> unique_impls ?s"
  proof
  assume inj: "inj (named_String G)"
  have u0: "unique_impls s" using assms(1) inj by (simp add: inv8_def)
  have nf: "named_String G n \<notin> impl_name ` set (impls f')" if "codegen s p = Some f'" for p f'
  proof
    assume "named_String G n \<in> impl_name ` set (impls f')"
    then obtain i where "i \<in> set (impls f')" "impl_name i = named_String G n" by auto
    with fresh [OF inj] that show False by blast
  qed
  show "unique_impls ?s"
    unfolding unique_impls_def
  proof (intro conjI allI impI)
    fix p f' assume a: "codegen ?s p = Some f'"
    show "distinct (map impl_name (impls f'))"
    proof (cases "p = file")
      case True
      with a have "impls f' = impls f @ [?i]" by auto
      moreover have "distinct (map impl_name (impls f))" using u0 Some unfolding unique_impls_def by blast
      ultimately show ?thesis using nf [OF Some] by simp
    next
      case False
      with a u0 show ?thesis unfolding unique_impls_def by simp
    qed
  next
    fix p q f' g' assume a: "p \<noteq> q \<and> codegen ?s p = Some f' \<and> codegen ?s q = Some g'"
    have base: "impl_name ` set (impls x) \<inter> impl_name ` set (impls y) = {}"
      if "codegen s p' = Some x" "codegen s q' = Some y" "p' \<noteq> q'" for p' q' x y
      using u0 that unfolding unique_impls_def by blast
    show "impl_name ` set (impls f') \<inter> impl_name ` set (impls g') = {}"
    proof (cases "p = file")
      case True
      with a have 1: "impls f' = impls f @ [?i]" "codegen s q = Some g'" "q \<noteq> file" by auto
      from base [OF Some 1(2)] 1(3) nf [OF 1(2)] 1(1) show ?thesis by auto
    next
      case pf: False
      show ?thesis
      proof (cases "q = file")
        case True
        with a have 1: "impls g' = impls f @ [?i]" "codegen s p = Some f'" "p \<noteq> file" by auto
        from base [OF 1(2) Some] 1(3) nf [OF 1(2)] 1(1) show ?thesis by auto
      next
        case False
        with pf a have "codegen s p = Some f'" "codegen s q = Some g'" "p \<noteq> q" by auto
        then show ?thesis by (rule base)
      qed
    qed
  qed
  qed
  show ?thesis unfolding eq inv8_def using c e u by simp
qed

lemma sizeImplForStruct_effect:
  assumes "consistent G s" and "sizeImplForStruct d G nm fs s = Ok (r, s')"
  shows "\<exists>K. init_entries G (mod' s) K \<and> s' = s\<lparr>known := K ++ known s\<rparr>"
  using sizeImplForStruct_indep [OF assms(1) assms(1) refl refl refl assms(2)] by blast

lemma generateType_inv8:
  "inv8 G s \<Longrightarrow> generateType d G pk fk n s = Ok s' \<Longrightarrow>
     inv8 G s' \<and> step s s' \<and> is_generated s' n"
  "inv8 G s \<Longrightarrow> generateType_impls d G pk fk iface objs s = Ok s' \<Longrightarrow>
     inv8 G s' \<and> step s s'"
proof (induction d G pk fk n s and d G pk fk iface objs s arbitrary: s' and s'
    rule: generateType_generateType_impls.induct)
  case (1 d G pk fk n s)
  note inv = "1.prems"(1) and run = "1.prems"(2)
  have cs: "consistent G s" using inv by (simp add: inv8_def)
  obtain ts s1 where g: "getKnownType G n s = (ts, s1)" by (cases "getKnownType G n s")
  note mk = getKnownType_mark [OF cs g]
  show ?case
  proof (cases "generated ts")
    case True
    then have "s' = s" using run g getKnownType_generated_same [OF g] by simp
    then show ?thesis using inv True mk(2) by simp
  next
    case ng: False
    let ?s2 = "mark G n s"
    have i2: "inv8 G ?s2" using inv by (rule inv8_mark)
    have st2: "step s ?s2" by (rule step_mark)
    have g2: "is_generated ?s2 n" by (simp add: is_generated_mark)
    have s2eq: "s1\<lparr>known := (known s1)(n \<mapsto> ts\<lparr>generated := True\<rparr>)\<rparr> = ?s2" by (rule mk(1))
    show ?thesis
    proof (cases "Underlying (Decl G n)")
      case (Struct fs)
      from run g ng Struct s2eq obtain impl flag s3 where
        w: "sizeImplForStruct d G (Obj_Name (Decl G n)) fs ?s2 = Ok ((impl, flag), s3)" and
        r: "s' = (case impl of None \<Rightarrow> s3
              | Some f \<Rightarrow> append_impl fk
                  \<lparr>impl_name = named_String G n, impl_flags = flag, impl_code = f\<rparr> s3)"
        by (auto simp: Let_def split: result.splits option.splits)
      from sizeImplForStruct_effect [OF _ w] i2 obtain K where
        K: "init_entries G (mod' ?s2) K" "s3 = ?s2\<lparr>known := K ++ known ?s2\<rparr>"
        by (auto simp: inv8_def)
      have i3: "inv8 G s3" unfolding K(2) using i2 K(1) by (rule inv8_add)
      have st3: "step ?s2 s3" unfolding K(2) using K(1) by (rule step_add)
      have g3: "is_generated s3 n" unfolding K(2) using K(1) g2 by (simp add: is_generated_add)
      show ?thesis
      proof (cases impl)
        case None
        then show ?thesis using r i3 g3 step_trans [OF st2 st3] by simp
      next
        case (Some f)
        have cg: "codegen s3 = codegen s" unfolding K(2) by (simp add: mark_def)
        have fresh: "\<forall>p f i. codegen s3 p = Some f \<and> i \<in> set (impls f)
                        \<longrightarrow> impl_name i \<noteq> named_String G n" if inj: "inj (named_String G)"
        proof (intro allI impI notI)
          fix p f' i
          assume a: "codegen s3 p = Some f' \<and> i \<in> set (impls f')"
            and b: "impl_name i = named_String G n"
          from a cg inv obtain m where m: "impl_name i = named_String G m" "is_generated s m"
            unfolding inv8_def emitted_ok_def by metis
          with b inj have "m = n" by (simp add: inj_eq)
          with m(2) ng mk(2) show False by simp
        qed
        have "inv8 G s'"
          unfolding r Some option.case using i3 g3 fresh by (rule inv8_append_impl)
        moreover have "step s3 s'" unfolding r Some option.case by (rule step_append_impl)
        moreover have "is_generated s' n"
          using g3 unfolding r Some option.case
          by (simp add: append_impl_def is_generated_def split: option.splits)
        ultimately show ?thesis using step_trans [OF st2 step_trans [OF st3]] by blast
      qed
    next
      case (Interface ms)
      have run': "generateType_impls d G pk fk (Interface ms) (Scope pk) ?s2 = Ok s'"
        using run g ng Interface s2eq by (simp add: Let_def)
      have "inv8 G s' \<and> step ?s2 s'"
        using "1.IH" [OF g [symmetric] ng s2eq [symmetric] Interface _ run'] i2 s2eq by simp
      moreover from this have "is_generated s' n" using g2 by (simp add: step_def)
      ultimately show ?thesis using step_trans [OF st2] by blast
    qed (use run g ng s2eq i2 st2 g2 in \<open>auto simp: Let_def\<close>)
  qed
next
  case (2 d G pk fk iface s)
  then show ?case by simp
next
  case (3 d G pk fk iface obj rest s)
  note inv = "3.prems"(1) and run = "3.prems"(2)
  show ?case
  proof (cases "Implements G (snd obj) iface \<or> Implements G (Pointer (snd obj)) iface")
    case False
    then have "generateType_impls d G pk fk iface rest s = Ok s'" using run by simp
    from "3.IH"(12) [OF False inv this] show ?thesis .
  next
    case im: True
    show ?thesis
    proof (cases "underlying G (snd obj)")
      case u: (Struct fs)
      from run im u obtain m where m: "snd obj = Named m"
        by (cases "snd obj") auto
      from run im u m obtain s1 where
        r1: "generateType d G pk fk m s = Ok s1" and
        r2: "generateType_impls d G pk fk iface rest s1 = Ok s'"
        by (auto split: result.splits)
      from "3.IH"(2) [OF im u m inv r1] have a: "inv8 G s1" "step s s1" by simp_all
      from "3.IH"(3) [OF im u m r1 a(1) r2] have "inv8 G s'" "step s1 s'" by simp_all
      with a show ?thesis using step_trans by blast
    next
      case u: (Basic x)
      then have "generateType_impls d G pk fk iface rest s = Ok s'" using run im by simp
      from "3.IH"(1) [OF im u inv this] show ?thesis .
    next
      case u: (Pointer x)
      then have "generateType_impls d G pk fk iface rest s = Ok s'" using run im by simp
      from "3.IH"(4) [OF im u inv this] show ?thesis .
    next
      case u: (Slice x)
      then have "generateType_impls d G pk fk iface rest s = Ok s'" using run im by simp
      from "3.IH"(5) [OF im u inv this] show ?thesis .
    next
      case u: (Map x y)
      then have "generateType_impls d G pk fk iface rest s = Ok s'" using run im by simp
      from "3.IH"(6) [OF im u inv this] show ?thesis .
    next
      case u: (Interface x)
      then have "generateType_impls d G pk fk iface rest s = Ok s'" using run im by simp
      from "3.IH"(7) [OF im u inv this] show ?thesis .
    next
      case u: (Named x)
      then have "generateType_impls d G pk fk iface rest s = Ok s'" using run im by simp
      from "3.IH"(8) [OF im u inv this] show ?thesis .
    next
      case u: (Array x y)
      then have "generateType_impls d G pk fk iface rest s = Ok s'" using run im by simp
      from "3.IH"(9) [OF im u inv this] show ?thesis .
    next
      case u: (Chan x)
      then have "generateType_impls d G pk fk iface rest s = Ok s'" using run im by simp
      from "3.IH"(10) [OF im u inv this] show ?thesis .
    next
      case u: Signature
      then have "generateType_impls d G pk fk iface rest s = Ok s'" using run im by simp
      from "3.IH"(11) [OF im u inv this] show ?thesis .
    qed
  qed
qed

lemma inv8_ensure_file:
  assumes "inv8 G s" "codegen s p = None"
  shows "inv8 G (s\<lparr>codegen := (codegen s)(p \<mapsto> \<lparr>pkg = nm, impls = []\<rparr>)\<rparr>)"
proof -
  let ?s = "s\<lparr>codegen := (codegen s)(p \<mapsto> \<lparr>pkg = nm, impls = []\<rparr>)\<rparr>"
  have c: "consistent G ?s" using assms(1) by (simp add: inv8_def consistent_def)
  have g: "is_generated ?s = is_generated s" by (simp add: is_generated_def fun_eq_iff)
  have e: "emitted_ok G ?s"
    unfolding emitted_ok_def g
  proof (intro allI impI)
    fix q f i assume a: "codegen ?s q = Some f \<and> i \<in> set (impls f)"
    then have "q \<noteq> p" by (auto split: if_splits)
    with a have "codegen s q = Some f \<and> i \<in> set (impls f)" by simp
    with assms(1) show "\<exists>n. impl_name i = named_String G n \<and> is_generated s n"
      unfolding inv8_def emitted_ok_def by blast
  qed
  have u: "inj (named_String G) \<longrightarrow> unique_impls ?s"
  proof
  assume inj: "inj (named_String G)"
  have u0: "unique_impls s" using assms(1) inj by (simp add: inv8_def)
  show "unique_impls ?s"
    unfolding unique_impls_def
  proof (intro conjI allI impI)
    fix q f assume "codegen ?s q = Some f"
    then show "distinct (map impl_name (impls f))"
      using u0 unfolding unique_impls_def by (cases "q = p") auto
  next
    fix q r f g assume a: "q \<noteq> r \<and> codegen ?s q = Some f \<and> codegen ?s r = Some g"
    show "impl_name ` set (impls f) \<inter> impl_name ` set (impls g) = {}"
    proof (cases "q = p \<or> r = p")
      case True
      with a show ?thesis by auto
    next
      case False
      with a have "q \<noteq> r \<and> codegen s q = Some f \<and> codegen s r = Some g" by simp
      with u0 show ?thesis unfolding unique_impls_def by blast
    qed
  qed
  qed
  show ?thesis unfolding inv8_def using c e u by simp
qed

lemma step_ensure_file:
  "step s (s\<lparr>codegen := (codegen s)(p \<mapsto> f)\<rparr>)"
  by (auto simp: step_def is_generated_def)

lemma generateKnownType_inv8:
  assumes "inv8 G s" "generateKnownType d G n s = Ok s'"
  shows "inv8 G s' \<and> step s s' \<and> is_generated s' n"
proof (cases "codegen s (Path (Obj_Pkg (Decl G n)))")
  case None
  let ?s1 = "s\<lparr>codegen := (codegen s)(Path (Obj_Pkg (Decl G n)) \<mapsto>
                \<lparr>pkg = Name (Obj_Pkg (Decl G n)), impls = []\<rparr>)\<rparr>"
  have r: "generateType d G (Obj_Pkg (Decl G n)) (Path (Obj_Pkg (Decl G n))) n ?s1 = Ok s'"
    using assms(2) None by (simp add: generateKnownType_def Let_def)
  have "inv8 G ?s1" using assms(1) None by (rule inv8_ensure_file)
  from generateType_inv8(1) [OF this r] step_ensure_file [of s]
  show ?thesis using step_trans by blast
next
  case (Some f)
  then have "generateType d G (Obj_Pkg (Decl G n)) (Path (Obj_Pkg (Decl G n))) n s = Ok s'"
    using assms(2) by (simp add: generateKnownType_def Let_def)
  from generateType_inv8(1) [OF assms(1) this] show ?thesis .
qed

lemma known_pass_inv8:
  "inv8 G s \<Longrightarrow> known_pass d G ord c s = Ok (c', s') \<Longrightarrow>
     inv8 G s' \<and> step s s'"
proof (induction ord arbitrary: c s)
  case Nil
  then show ?case by simp
next
  case (Cons tt rest)
  show ?case
  proof (cases "\<exists>ts. known s tt = Some ts \<and> local ts \<and> \<not> pod ts \<and> \<not> generated ts")
    case False
    then have "known_pass d G rest c s = Ok (c', s')"
      using Cons.prems(2) by (auto simp: Let_def split: option.splits)
    from Cons.IH [OF Cons.prems(1) this] show ?thesis .
  next
    case True
    then obtain s1 where
      r1: "generateKnownType d G tt s = Ok s1" and r2: "known_pass d G rest False s1 = Ok (c', s')"
      using Cons.prems(2) by (auto simp: Let_def split: result.splits)
    from generateKnownType_inv8 [OF Cons.prems(1) r1] have a: "inv8 G s1" "step s s1" by simp_all
    from Cons.IH [OF a(1) r2] a(2) show ?thesis using step_trans by blast
  qed
qed

lemma remaining_loop_inv8:
  "inv8 G s \<Longrightarrow> remaining_loop d G orders k s = Ok (code, s', passes) \<Longrightarrow>
     inv8 G s' \<and> step s s' \<and> files code = codegen s'"
proof (induction orders arbitrary: k s)
  case Nil
  then show ?case by simp
next
  case (Cons ord rest)
  from Cons.prems(2) obtain c s1 where p: "known_pass d G ord True s = Ok (c, s1)"
    by (auto split: result.splits)
  from known_pass_inv8 [OF Cons.prems(1) p] have a: "inv8 G s1" "step s s1" by simp_all
  show ?case
  proof (cases c)
    case True
    with Cons.prems(2) p a show ?thesis by auto
  next
    case False
    with Cons.prems(2) p have "remaining_loop d G rest (Suc k) s1 = Ok (code, s', passes)" by simp
    from Cons.IH [OF a(1) this] a(2) show ?thesis using step_trans by blast
  qed
qed

lemma generate_loop_inv8:
  "inv8 G s \<Longrightarrow> generate_loop d G scopes gens s = Ok (Inr s') \<Longrightarrow>
     inv8 G s' \<and> step s s'"
proof (induction gens arbitrary: s)
  case Nil
  then show ?case by simp
next
  case (Cons gen rest)
  from Cons.prems(2) obtain n s1 where
    r1: "generateKnownType d G n s = Ok s1" and r2: "generate_loop d G scopes rest s1 = Ok (Inr s')"
    by (auto simp: Let_def split: if_splits option.splits gotype.splits result.splits)
  from generateKnownType_inv8 [OF Cons.prems(1) r1] have a: "inv8 G s1" "step s s1" by simp_all
  from Cons.IH [OF a(1) r2] a(2) show ?case using step_trans by blast
qed

lemma inv8_newSizegen: "inv8 G (newSizegen m sz)"
  by (simp add: inv8_def consistent_def emitted_ok_def unique_impls_def newSizegen_def)

lemma ex_inj: "inj (named_String ex_prog)"
proof (rule injI)
  fix n m
  assume "named_String ex_prog n = named_String ex_prog m"
  then show "n = m"
    by (auto simp: named_String_def ex_prog_def ex_decl_def ex_pkg_def ex_foreign_pkg_def
        split: if_splits)
qed

lemma ex_roots: "generateCode 3 ex_prog ex_loaded [''m/p.A''] = Ok (Inr ex_after_roots)"
  by (simp add: generateCode_def ex_gen_def newSizegen_def ex_sizes_def ex_prog_def ex_decl_def
      ex_pkg_def ex_mod_def ex_loaded_def LastIndexByte_def generateKnownType_def
      getKnownType_def Let_def sizeImplForStruct_def eval_nat_numeral isString_def size_id_def
      append_impl_def named_String_def ex_after_roots_def ex_implA_def cachedSize_func_def)

lemma ex_driver:
  "generateRemainingKnownTypes 3 ex_prog [[0, 1], [0, 1]] ex_after_roots =
     Ok (\<lparr>gc_mod = ex_mod, files = codegen ex_final\<rparr>, ex_final, 2)"
  by (simp add: generateRemainingKnownTypes_def ex_gen_def newSizegen_def ex_sizes_def
      ex_prog_def ex_decl_def ex_pkg_def ex_mod_def generateKnownType_def
      getKnownType_def Let_def sizeImplForStruct_def eval_nat_numeral isString_def size_id_def
      append_impl_def named_String_def ex_after_roots_def ex_final_def ex_implA_def ex_implB_def
      cachedSize_func_def)

section \<open>Termination of the fixpoint driver\<close>

subsection \<open>Where the walker does not return\<close>

text \<open>
  On \<open>type T []T\<close> the walker goes from the named type to its underlying slice and
  from the slice to its element, the named type again, without end: at every depth
  the result is \<open>OutOfFuel\<close>. The hypotheses on the synthesis below leave such
  types out.
\<close>

lemma walker_diverges:
  "consistent ex_rec s \<Longrightarrow> mod' s = ex_mod \<Longrightarrow> sizes s = ex_sizes \<Longrightarrow>
   sizeStmtForType d ex_rec f (Named n) a s = OutOfFuel \<and>
   sizeStmtForType d ex_rec f (Slice (Named n)) a s = OutOfFuel"
proof (induction d arbitrary: f a s)
  case 0
  then show ?case by simp
next
  case (Suc d)
  obtain ts s1 where g: "getKnownType ex_rec n s = (ts, s1)" by (cases "getKnownType ex_rec n s")
  from getKnownType_consistent [OF Suc.prems(1), of n] g have
    s1: "s1 = s\<lparr>known := [n \<mapsto> init_ts ex_rec (mod' s) n] ++ known s\<rparr>"
    and fl: "local ts = local_of ex_rec (mod' s) n" "pod ts = isPod (Underlying (Decl ex_rec n))"
    by auto
  have c1: "consistent ex_rec s1"
    unfolding s1 using Suc.prems(1) by (simp add: consistent_add init_entries_def)
  have e1: "mod' s1 = ex_mod" "sizes s1 = ex_sizes" using s1 Suc.prems(2,3) by simp_all
  have lp: "local ts" "\<not> pod ts"
    using fl Suc.prems(2) by (simp_all add: local_of_def ex_rec_def ex_pkg_def ex_mod_def)
  have sl: "sizeStmtForType d ex_rec f' (Slice (Named n)) a' s1 = OutOfFuel" for f' a'
    using Suc.IH [OF c1 e1] by simp
  have nm: "sizeStmtForType d ex_rec f' (Named n) a' s' = OutOfFuel"
    if "consistent ex_rec s'" "mod' s' = ex_mod" "sizes s' = ex_sizes" for f' a' s'
    using Suc.IH [OF that] by simp
  have 1: "sizeStmtForType (Suc d) ex_rec f (Named n) a s = OutOfFuel"
    using g lp sl Suc.prems(3) by (simp add: Let_def ex_rec_def ex_sizes_def)
  have 2: "sizeStmtForType (Suc d) ex_rec f (Slice (Named n)) a s = OutOfFuel"
    using nm [OF Suc.prems] Suc.prems(3) by (simp add: Let_def ex_sizes_def)
  from 1 2 show ?case by simp
qed

lemma walker_diverges_on_recursive_slice:
  "sizeStmtForType d ex_rec (Dot (Ident ''cached'') ''f'') (Named 0) False ex_gen = OutOfFuel"
  by (rule walker_diverges [THEN conjunct1]) (simp_all add: consistent_def ex_gen_def newSizegen_def)





lemma inv8_consistent: "inv8 G s \<Longrightarrow> consistent G s"
  by (simp add: inv8_def)




lemma pending_mono:
  assumes "step s s'"
  shows "pending G s' \<subseteq> pending G s"
  using assms unfolding pending_def step_def by auto




subsection \<open>What a run generates\<close>

lemma impl_of_Cons: "impl_of G iface rest m \<Longrightarrow> impl_of G iface (obj # rest) m"
  by (auto simp: impl_of_def)

lemma has_entry_codegen: "codegen s' = codegen s \<Longrightarrow> has_entry s' nm = has_entry s nm"
  by (simp add: has_entry_def)

lemma has_entry_append_impl:
  "has_entry s nm \<Longrightarrow> has_entry (append_impl fk impl s) nm"
proof -
  assume "has_entry s nm"
  then obtain p f i where
    e: "codegen s p = Some f" "i < length (impls f)" "impl_name (impls f ! i) = nm"
    unfolding has_entry_def by blast
  show ?thesis
  proof (cases "codegen s fk")
    case None
    then show ?thesis using e by (auto simp: append_impl_def has_entry_def)
  next
    case (Some f0)
    show ?thesis
    proof (cases "p = fk")
      case True
      with e Some have "codegen (append_impl fk impl s) fk = Some (f0\<lparr>impls := impls f0 @ [impl]\<rparr>)"
        "i < length (impls (f0\<lparr>impls := impls f0 @ [impl]\<rparr>))"
        "impl_name (impls (f0\<lparr>impls := impls f0 @ [impl]\<rparr>) ! i) = nm"
        by (simp_all add: append_impl_def nth_append)
      then show ?thesis unfolding has_entry_def by blast
    next
      case False
      with e Some have "codegen (append_impl fk impl s) p = Some f"
        by (simp add: append_impl_def)
      with e show ?thesis unfolding has_entry_def by blast
    qed
  qed
qed

lemma has_entry_appended:
  "codegen s fk = Some f0 \<Longrightarrow> has_entry (append_impl fk impl s) (impl_name impl)"
proof -
  assume a: "codegen s fk = Some f0"
  then have "codegen (append_impl fk impl s) fk = Some (f0\<lparr>impls := impls f0 @ [impl]\<rparr>)"
    "length (impls f0) < length (impls (f0\<lparr>impls := impls f0 @ [impl]\<rparr>))"
    "impl_name (impls (f0\<lparr>impls := impls f0 @ [impl]\<rparr>) ! length (impls f0)) = impl_name impl"
    by (simp_all add: append_impl_def)
  then show ?thesis unfolding has_entry_def by blast
qed

lemma emits_all_mark:
  assumes "emits_all G s" "\<not> is_struct G n"
  shows "emits_all G (mark G n s)"
  unfolding emits_all_def
proof (intro allI impI)
  fix x fs
  assume a: "is_generated (mark G n s) x \<and> Underlying (Decl G x) = Struct fs \<and>
             sizes (mark G n s) (Struct fs) \<noteq> 0"
  then have "x \<noteq> n" using assms(2) by (auto simp: is_struct_def)
  with a have "is_generated s x \<and> Underlying (Decl G x) = Struct fs \<and> sizes s (Struct fs) \<noteq> 0"
    by (simp add: is_generated_mark) (simp add: mark_def)
  with assms(1) have "has_entry s (named_String G x)" unfolding emits_all_def by blast
  then show "has_entry (mark G n s) (named_String G x)"
    by (simp add: has_entry_def mark_def)
qed

lemma emits_all_struct:
  assumes "inv8 G s" "emits_all G s" "Underlying (Decl G n) = Struct fs"
    and "codegen s fk \<noteq> None"
    and "sizeImplForStruct d G (Obj_Name (Decl G n)) fs (mark G n s) = Ok ((impl, flag), s3)"
    and "s' = (case impl of None \<Rightarrow> s3
              | Some f \<Rightarrow> append_impl fk
                  \<lparr>impl_name = named_String G n, impl_flags = flag, impl_code = f\<rparr> s3)"
  shows "emits_all G s'" and "is_generated s' x = (x = n \<or> is_generated s x)"
proof -
  let ?s2 = "mark G n s"
  have c2: "consistent G ?s2" using assms(1) by (simp add: inv8_def consistent_mark)
  from sizeImplForStruct_effect [OF c2 assms(5)] obtain K where
    K: "init_entries G (mod' ?s2) K" "s3 = ?s2\<lparr>known := K ++ known ?s2\<rparr>" by blast
  have g3: "is_generated s3 y = (y = n \<or> is_generated s y)" for y
    using K by (simp add: is_generated_add is_generated_mark)
  have cg3: "codegen s3 = codegen s" using K(2) by (simp add: mark_def)
  have sz3: "sizes s3 = sizes s" using K(2) by (simp add: mark_def)
  have k: "known s' = known s3" using assms(6)
    by (simp add: append_impl_def split: option.splits)
  have sz: "sizes s' = sizes s" using assms(6) sz3
    by (simp add: append_impl_def split: option.splits)
  have g: "is_generated s' y = (y = n \<or> is_generated s y)" for y
    using k g3 [of y] by (simp add: is_generated_def)
  show "is_generated s' x = (x = n \<or> is_generated s x)" by (rule g)
  obtain f0 where f0: "codegen s3 fk = Some f0" using assms(4) cg3 by auto
  have keep: "has_entry s' nm" if "has_entry s nm" for nm
  proof -
    from that have h3: "has_entry s3 nm" using cg3 by (simp add: has_entry_def)
    show ?thesis
    proof (cases impl)
      case None
      then show ?thesis using h3 assms(6) by simp
    next
      case (Some f)
      then show ?thesis using has_entry_append_impl [OF h3] assms(6) by simp
    qed
  qed
  show "emits_all G s'"
    unfolding emits_all_def
  proof (intro allI impI)
    fix y fs'
    assume a: "is_generated s' y \<and> Underlying (Decl G y) = Struct fs' \<and> sizes s' (Struct fs') \<noteq> 0"
    show "has_entry s' (named_String G y)"
    proof (cases "y = n")
      case True
      with a assms(3) sz have nz: "sizes ?s2 (Struct fs) \<noteq> 0" by (simp add: mark_def)
      with assms(5) obtain f where f: "impl = Some f"
        by (auto simp: sizeImplForStruct_def split: result.splits)
      have "has_entry (append_impl fk
                \<lparr>impl_name = named_String G n, impl_flags = flag, impl_code = f\<rparr> s3)
              (impl_name \<lparr>impl_name = named_String G n, impl_flags = flag, impl_code = f\<rparr>)"
        using f0 by (rule has_entry_appended)
      then show ?thesis using f assms(6) True by simp
    next
      case False
      with a g [of y] sz have
        "is_generated s y \<and> Underlying (Decl G y) = Struct fs' \<and> sizes s (Struct fs') \<noteq> 0"
        by simp
      with assms(2) have "has_entry s (named_String G y)" unfolding emits_all_def by blast
      then show ?thesis by (rule keep)
    qed
  qed
qed

lemma step_codegen_Some: "step s s' \<Longrightarrow> codegen s p \<noteq> None \<Longrightarrow> codegen s' p \<noteq> None"
  by (auto simp: step_def)

lemma generateType_more:
  "inv8 G s \<Longrightarrow> emits_all G s \<Longrightarrow> codegen s fk \<noteq> None \<Longrightarrow>
   (\<forall>ms. Underlying (Decl G n) = Interface ms \<longrightarrow> pk = Obj_Pkg (Decl G n)) \<Longrightarrow>
   generateType d G pk fk n s = Ok s' \<Longrightarrow>
     emits_all G s' \<and> (\<forall>x. is_generated s' x \<and> \<not> is_generated s x \<longrightarrow> forced G n x)"
  "inv8 G s \<Longrightarrow> emits_all G s \<Longrightarrow> codegen s fk \<noteq> None \<Longrightarrow>
   generateType_impls d G pk fk iface objs s = Ok s' \<Longrightarrow>
     emits_all G s' \<and> (\<forall>x. is_generated s' x \<and> \<not> is_generated s x \<longrightarrow> impl_of G iface objs x)"
proof (induction d G pk fk n s and d G pk fk iface objs s arbitrary: s' and s'
    rule: generateType_generateType_impls.induct)
  case (1 d G pk fk n s)
  note inv = "1.prems"(1) and em = "1.prems"(2) and cf = "1.prems"(3)
    and pkn = "1.prems"(4) and run = "1.prems"(5)
  have cs: "consistent G s" using inv by (simp add: inv8_def)
  obtain ts s1 where g: "getKnownType G n s = (ts, s1)" by (cases "getKnownType G n s")
  note mk = getKnownType_mark [OF cs g]
  show ?case
  proof (cases "generated ts")
    case True
    then have "s' = s" using run g getKnownType_generated_same [OF g] by simp
    then show ?thesis using em by simp
  next
    case ng: False
    let ?s2 = "mark G n s"
    have i2: "inv8 G ?s2" using inv by (rule inv8_mark)
    have s2eq: "s1\<lparr>known := (known s1)(n \<mapsto> ts\<lparr>generated := True\<rparr>)\<rparr> = ?s2" by (rule mk(1))
    have other: ?thesis if ns: "\<not> is_struct G n" and r: "s' = ?s2"
      using emits_all_mark [OF em ns] r by (auto simp: is_generated_mark forced_def)
    show ?thesis
    proof (cases "Underlying (Decl G n)")
      case (Struct fs)
      from run g ng Struct s2eq obtain impl flag s3 where
        w: "sizeImplForStruct d G (Obj_Name (Decl G n)) fs ?s2 = Ok ((impl, flag), s3)" and
        r: "s' = (case impl of None \<Rightarrow> s3
              | Some f \<Rightarrow> append_impl fk
                  \<lparr>impl_name = named_String G n, impl_flags = flag, impl_code = f\<rparr> s3)"
        by (auto simp: Let_def split: result.splits option.splits)
      from emits_all_struct [OF inv em Struct cf w r] show ?thesis
        by (auto simp: forced_def)
    next
      case (Interface ms)
      have run': "generateType_impls d G pk fk (Interface ms) (Scope pk) ?s2 = Ok s'"
        using run g ng Interface s2eq by (simp add: Let_def)
      have pk: "pk = Obj_Pkg (Decl G n)" using pkn Interface by simp
      have ns: "\<not> is_struct G n" using Interface by (simp add: is_struct_def)
      have cf2: "codegen ?s2 fk \<noteq> None" using cf by (simp add: mark_def)
      from "1.IH" [OF g [symmetric] ng s2eq [symmetric] Interface _ _ _ run']
        i2 emits_all_mark [OF em ns] cf2 s2eq
      have e: "emits_all G s'"
           "\<forall>x. is_generated s' x \<and> \<not> is_generated ?s2 x \<longrightarrow>
                impl_of G (Interface ms) (Scope pk) x"
        by auto
      show ?thesis using e Interface pk by (auto simp: forced_def is_generated_mark)
    next
      case (Basic x)
      then have "s' = ?s2" using run g ng s2eq by (simp add: Let_def)
      with Basic show ?thesis by (intro other) (simp_all add: is_struct_def)
    next
      case (Pointer x)
      then have "s' = ?s2" using run g ng s2eq by (simp add: Let_def)
      with Pointer show ?thesis by (intro other) (simp_all add: is_struct_def)
    next
      case (Slice x)
      then have "s' = ?s2" using run g ng s2eq by (simp add: Let_def)
      with Slice show ?thesis by (intro other) (simp_all add: is_struct_def)
    next
      case (Map x y)
      then have "s' = ?s2" using run g ng s2eq by (simp add: Let_def)
      with Map show ?thesis by (intro other) (simp_all add: is_struct_def)
    next
      case (Named x)
      then have "s' = ?s2" using run g ng s2eq by (simp add: Let_def)
      with Named show ?thesis by (intro other) (simp_all add: is_struct_def)
    next
      case (Array x y)
      then have "s' = ?s2" using run g ng s2eq by (simp add: Let_def)
      with Array show ?thesis by (intro other) (simp_all add: is_struct_def)
    next
      case (Chan x)
      then have "s' = ?s2" using run g ng s2eq by (simp add: Let_def)
      with Chan show ?thesis by (intro other) (simp_all add: is_struct_def)
    next
      case Signature
      then have "s' = ?s2" using run g ng s2eq by (simp add: Let_def)
      with Signature show ?thesis by (intro other) (simp_all add: is_struct_def)
    qed
  qed
next
  case (2 d G pk fk iface s)
  then show ?case by simp
next
  case (3 d G pk fk iface obj rest s)
  note inv = "3.prems"(1) and em = "3.prems"(2) and cf = "3.prems"(3) and run = "3.prems"(4)
  have skip: ?case
    if ih: "emits_all G s' \<and>
            (\<forall>x. is_generated s' x \<and> \<not> is_generated s x \<longrightarrow> impl_of G iface rest x)"
    using ih impl_of_Cons by blast
  show ?case
  proof (cases "Implements G (snd obj) iface \<or> Implements G (Pointer (snd obj)) iface")
    case False
    then have r: "generateType_impls d G pk fk iface rest s = Ok s'" using run by simp
    from "3.IH"(12) [OF False inv em cf r] show ?thesis by (rule skip)
  next
    case im: True
    show ?thesis
    proof (cases "underlying G (snd obj)")
      case u: (Struct fs)
      from run im u obtain m where m: "snd obj = Named m"
        by (cases "snd obj") auto
      from run im u m obtain s1 where
        r1: "generateType d G pk fk m s = Ok s1" and
        r2: "generateType_impls d G pk fk iface rest s1 = Ok s'"
        by (auto split: result.splits)
      have um: "Underlying (Decl G m) = Struct fs" using u m by simp
      have ni: "\<forall>ms. Underlying (Decl G m) = Interface ms \<longrightarrow> pk = Obj_Pkg (Decl G m)"
        using um by simp
      from "3.IH"(2) [OF im u m inv em cf ni r1] have
        e1: "emits_all G s1" "\<forall>x. is_generated s1 x \<and> \<not> is_generated s x \<longrightarrow> forced G m x"
        by simp_all
      from generateType_inv8(1) [OF inv r1] have
        a: "inv8 G s1" "step s s1" by simp_all
      have cf1: "codegen s1 fk \<noteq> None" using a(2) cf by (rule step_codegen_Some)
      from "3.IH"(3) [OF im u m r1 a(1) e1(1) cf1 r2] have
        e2: "emits_all G s'"
            "\<forall>x. is_generated s' x \<and> \<not> is_generated s1 x \<longrightarrow> impl_of G iface rest x"
        by simp_all
      have sm: "is_struct G m" using um by (simp add: is_struct_def)
      have im_m: "impl_of G iface (obj # rest) m"
        using im m sm by (auto simp: impl_of_def)
      have f1: "\<forall>x. is_generated s1 x \<and> \<not> is_generated s x \<longrightarrow> x = m"
        using e1(2) um by (simp add: forced_def)
      have "\<forall>x. is_generated s' x \<and> \<not> is_generated s x \<longrightarrow> impl_of G iface (obj # rest) x"
        using f1 e2(2) im_m impl_of_Cons [of G iface rest _ obj] by blast
      with e2(1) show ?thesis by simp
    next
      case u: (Basic x)
      then have r: "generateType_impls d G pk fk iface rest s = Ok s'" using run im by simp
      from "3.IH"(1) [OF im u inv em cf r] show ?thesis by (rule skip)
    next
      case u: (Pointer x)
      then have r: "generateType_impls d G pk fk iface rest s = Ok s'" using run im by simp
      from "3.IH"(4) [OF im u inv em cf r] show ?thesis by (rule skip)
    next
      case u: (Slice x)
      then have r: "generateType_impls d G pk fk iface rest s = Ok s'" using run im by simp
      from "3.IH"(5) [OF im u inv em cf r] show ?thesis by (rule skip)
    next
      case u: (Map x y)
      then have r: "generateType_impls d G pk fk iface rest s = Ok s'" using run im by simp
      from "3.IH"(6) [OF im u inv em cf r] show ?thesis by (rule skip)
    next
      case u: (Interface x)
      then have r: "generateType_impls d G pk fk iface rest s = Ok s'" using run im by simp
      from "3.IH"(7) [OF im u inv em cf r] show ?thesis by (rule skip)
    next
      case u: (Named x)
      then have r: "generateType_impls d G pk fk iface rest s = Ok s'" using run im by simp
      from "3.IH"(8) [OF im u inv em cf r] show ?thesis by (rule skip)
    next
      case u: (Array x y)
      then have r: "generateType_impls d G pk fk iface rest s = Ok s'" using run im by simp
      from "3.IH"(9) [OF im u inv em cf r] show ?thesis by (rule skip)
    next
      case u: (Chan x)
      then have r: "generateType_impls d G pk fk iface rest s = Ok s'" using run im by simp
      from "3.IH"(10) [OF im u inv em cf r] show ?thesis by (rule skip)
    next
      case u: Signature
      then have r: "generateType_impls d G pk fk iface rest s = Ok s'" using run im by simp
      from "3.IH"(11) [OF im u inv em cf r] show ?thesis by (rule skip)
    qed
  qed
qed


lemma emits_all_ensure_file:
  assumes "emits_all G s" "codegen s p = None"
  shows "emits_all G (s\<lparr>codegen := (codegen s)(p \<mapsto> f)\<rparr>)"
  unfolding emits_all_def
proof (intro allI impI)
  fix n fs
  let ?s = "s\<lparr>codegen := (codegen s)(p \<mapsto> f)\<rparr>"
  assume "is_generated ?s n \<and> Underlying (Decl G n) = Struct fs \<and> sizes ?s (Struct fs) \<noteq> 0"
  then have "is_generated s n \<and> Underlying (Decl G n) = Struct fs \<and> sizes s (Struct fs) \<noteq> 0"
    by (simp add: is_generated_def)
  with assms(1) obtain q g i where
    e: "codegen s q = Some g" "i < length (impls g)" "impl_name (impls g ! i) = named_String G n"
    unfolding emits_all_def has_entry_def by blast
  then have "q \<noteq> p" using assms(2) by auto
  with e have "codegen ?s q = Some g" by simp
  with e show "has_entry ?s (named_String G n)" unfolding has_entry_def by blast
qed

lemma generateKnownType_more:
  assumes "inv8 G s" "emits_all G s" "generateKnownType d G n s = Ok s'"
  shows "emits_all G s' \<and> (\<forall>x. is_generated s' x \<and> \<not> is_generated s x \<longrightarrow> forced G n x)"
proof (cases "codegen s (Path (Obj_Pkg (Decl G n)))")
  case None
  let ?s1 = "s\<lparr>codegen := (codegen s)(Path (Obj_Pkg (Decl G n)) \<mapsto>
                \<lparr>pkg = Name (Obj_Pkg (Decl G n)), impls = []\<rparr>)\<rparr>"
  have r: "generateType d G (Obj_Pkg (Decl G n)) (Path (Obj_Pkg (Decl G n))) n ?s1 = Ok s'"
    using assms(3) None by (simp add: generateKnownType_def Let_def)
  have i1: "inv8 G ?s1" using assms(1) None by (rule inv8_ensure_file)
  have e1: "emits_all G ?s1" using assms(2) None by (rule emits_all_ensure_file)
  have g: "is_generated ?s1 = is_generated s" by (simp add: is_generated_def fun_eq_iff)
  from generateType_more(1) [OF i1 e1 _ _ r] show ?thesis unfolding g by simp
next
  case (Some f)
  have r: "generateType d G (Obj_Pkg (Decl G n)) (Path (Obj_Pkg (Decl G n))) n s = Ok s'"
    using assms(3) Some by (simp add: generateKnownType_def Let_def)
  from generateType_more(1) [OF assms(1,2) _ _ r] Some show ?thesis by simp
qed

lemma known_pass_more:
  "inv8 G s \<Longrightarrow> emits_all G s \<Longrightarrow> known_pass d G ord c s = Ok (c', s') \<Longrightarrow>
     emits_all G s' \<and>
     (\<forall>x. is_generated s' x \<and> \<not> is_generated s x \<longrightarrow>
          (\<exists>tt \<in> pending G s. is_generated s' tt \<and> forced G tt x)) \<and>
     (c' \<longrightarrow> c \<and> s' = s \<and>
        (\<forall>n \<in> set ord. \<forall>ts. known s n = Some ts \<longrightarrow>
            \<not> (local ts \<and> \<not> pod ts \<and> \<not> generated ts)))"
proof (induction ord arbitrary: c s)
  case Nil
  then show ?case by simp
next
  case (Cons tt rest)
  note inv = Cons.prems(1) and em = Cons.prems(2) and run = Cons.prems(3)
  have cs: "consistent G s" using inv by (rule inv8_consistent)
  show ?case
  proof (cases "\<exists>ts. known s tt = Some ts \<and> local ts \<and> \<not> pod ts \<and> \<not> generated ts")
    case False
    then have r: "known_pass d G rest c s = Ok (c', s')"
      using run by (auto simp: Let_def split: option.splits)
    from Cons.IH [OF inv em r] False show ?thesis by auto
  next
    case True
    then obtain ts where ts: "known s tt = Some ts" "local ts" "\<not> pod ts" "\<not> generated ts"
      by blast
    from cs ts have lp: "local_of G (mod' s) tt" "\<not> isPod (Underlying (Decl G tt))"
      unfolding consistent_def by auto
    have pt: "tt \<in> pending G s"
      using lp ts by (simp add: pending_def is_generated_def)
    from run ts obtain s1 where
      r1: "generateKnownType d G tt s = Ok s1" and r2: "known_pass d G rest False s1 = Ok (c', s')"
      by (auto simp: Let_def split: result.splits)
    from generateKnownType_inv8 [OF inv r1] have
      a: "inv8 G s1" "step s s1" "is_generated s1 tt" by simp_all
    from generateKnownType_more [OF inv em r1] have
      m1: "emits_all G s1" "\<forall>x. is_generated s1 x \<and> \<not> is_generated s x \<longrightarrow> forced G tt x"
      by simp_all
    from Cons.IH [OF a(1) m1(1) r2] have
      m2: "emits_all G s'"
          "\<forall>x. is_generated s' x \<and> \<not> is_generated s1 x \<longrightarrow>
               (\<exists>u \<in> pending G s1. is_generated s' u \<and> forced G u x)"
          "\<not> c'"
      by auto
    from known_pass_inv8 [OF a(1) r2] have st: "step s1 s'" by simp
    have gt: "is_generated s' tt" using a(3) st by (simp add: step_def)
    have pm: "pending G s1 \<subseteq> pending G s" using a(2) by (rule pending_mono)
    have "\<exists>u \<in> pending G s. is_generated s' u \<and> forced G u x"
      if x: "is_generated s' x \<and> \<not> is_generated s x" for x
    proof (cases "is_generated s1 x")
      case True
      with x m1(2) have "forced G tt x" by blast
      with pt gt show ?thesis by blast
    next
      case False
      with x m2(2) obtain u where "u \<in> pending G s1" "is_generated s' u \<and> forced G u x" by blast
      with pm show ?thesis by blast
    qed
    with m2(1,3) show ?thesis by blast
  qed
qed

lemma remaining_loop_more:
  "inv8 G s \<Longrightarrow> emits_all G s \<Longrightarrow> remaining_loop d G orders k s = Ok (code, s', passes) \<Longrightarrow>
     emits_all G s' \<and>
     (\<forall>x. is_generated s' x \<and> \<not> is_generated s x \<longrightarrow>
          (\<exists>tt \<in> pending G s. is_generated s' tt \<and> forced G tt x)) \<and>
     k < passes \<and> code = \<lparr>gc_mod = mod' s', files = codegen s'\<rparr> \<and>
     (dom (known s') \<subseteq> set (orders ! (passes - k - 1)) \<longrightarrow> quiescent s')"
proof (induction orders arbitrary: k s)
  case Nil
  then show ?case by simp
next
  case (Cons ord rest)
  note inv = Cons.prems(1) and em = Cons.prems(2) and run = Cons.prems(3)
  from run obtain c s1 where p: "known_pass d G ord True s = Ok (c, s1)"
    by (auto split: result.splits)
  from known_pass_inv8 [OF inv p] have a: "inv8 G s1" "step s s1" by simp_all
  from known_pass_more [OF inv em p] have
    m1: "emits_all G s1"
        "\<forall>x. is_generated s1 x \<and> \<not> is_generated s x \<longrightarrow>
             (\<exists>tt \<in> pending G s. is_generated s1 tt \<and> forced G tt x)"
        "c \<longrightarrow> s1 = s \<and>
           (\<forall>n \<in> set ord. \<forall>ts. known s n = Some ts \<longrightarrow>
               \<not> (local ts \<and> \<not> pod ts \<and> \<not> generated ts))"
    by simp_all
  show ?case
  proof (cases c)
    case True
    have q: "dom (known s) \<subseteq> set ord \<longrightarrow> quiescent s"
      using m1(3) True unfolding quiescent_def by blast
    have "code = \<lparr>gc_mod = mod' s, files = codegen s\<rparr> \<and> s' = s \<and> passes = Suc k"
      using run p m1(3) True by auto
    then show ?thesis using q em by auto
  next
    case False
    then have r: "remaining_loop d G rest (Suc k) s1 = Ok (code, s', passes)"
      using run p by simp
    from Cons.IH [OF a(1) m1(1) r] have
      m2: "emits_all G s'"
          "\<forall>x. is_generated s' x \<and> \<not> is_generated s1 x \<longrightarrow>
               (\<exists>tt \<in> pending G s1. is_generated s' tt \<and> forced G tt x)"
          "Suc k < passes" "code = \<lparr>gc_mod = mod' s', files = codegen s'\<rparr>"
          "dom (known s') \<subseteq> set (rest ! (passes - Suc k - 1)) \<longrightarrow> quiescent s'"
      by simp_all
    from remaining_loop_inv8 [OF a(1) r] have st: "step s1 s'" by simp
    have pm: "pending G s1 \<subseteq> pending G s" using a(2) by (rule pending_mono)
    have idx: "(ord # rest) ! (passes - k - 1) = rest ! (passes - Suc k - 1)"
      using m2(3) by (cases "passes - k - 1") auto
    have "\<exists>u \<in> pending G s. is_generated s' u \<and> forced G u x"
      if x: "is_generated s' x \<and> \<not> is_generated s x" for x
    proof (cases "is_generated s1 x")
      case True
      with x m1(2) obtain u where "u \<in> pending G s" "is_generated s1 u" "forced G u x" by blast
      moreover from this st have "is_generated s' u" by (simp add: step_def)
      ultimately show ?thesis by blast
    next
      case False
      with x m2(2) obtain u where "u \<in> pending G s1" "is_generated s' u \<and> forced G u x" by blast
      with pm show ?thesis by blast
    qed
    with m2 idx show ?thesis by simp
  qed
qed

lemma generate_loop_root:
  assumes "generate_loop d G scopes (gen # rest) s = Ok (Inr s')"
  shows "\<exists>n s1. root_of scopes gen = Some (Named n) \<and> generateKnownType d G n s = Ok s1 \<and>
                generate_loop d G scopes rest s1 = Ok (Inr s')"
  using assms
  by (auto simp: Let_def root_of_def split: if_splits option.splits gotype.splits result.splits)

lemma generate_loop_more:
  "inv8 G s \<Longrightarrow> emits_all G s \<Longrightarrow> generate_loop d G scopes gens s = Ok (Inr s') \<Longrightarrow>
     emits_all G s' \<and>
     (\<forall>gen \<in> set gens. \<forall>n. root_of scopes gen = Some (Named n) \<longrightarrow> is_generated s' n)"
proof (induction gens arbitrary: s)
  case Nil
  then show ?case by simp
next
  case (Cons gen rest)
  from generate_loop_root [OF Cons.prems(3)] obtain n s1 where
    r0: "root_of scopes gen = Some (Named n)" and
    r1: "generateKnownType d G n s = Ok s1" and
    r2: "generate_loop d G scopes rest s1 = Ok (Inr s')"
    by blast
  from generateKnownType_inv8 [OF Cons.prems(1) r1] have
    a: "inv8 G s1" "step s s1" "is_generated s1 n" by simp_all
  from generateKnownType_more [OF Cons.prems(1,2) r1] have m1: "emits_all G s1" by simp
  from generate_loop_inv8 [OF a(1) r2] have st: "step s1 s'" by simp
  have "is_generated s' n" using a(3) st by (simp add: step_def)
  with Cons.IH [OF a(1) m1 r2] r0 show ?case by auto
qed


lemma emits_all_newSizegen: "emits_all G (newSizegen m sz)"
  by (simp add: emits_all_def is_generated_def newSizegen_def)




subsection \<open>The runs of the examples\<close>














section \<open>Exactly one method for a generated struct\<close>



section \<open>The iteration order of the registry and the output\<close>

lemmas var_defs = generateCode_def ex_gen_def newSizegen_def ex_sizes_def ex_var_def
      ex_var_decl_def ex_pkg_a_def ex_pkg_b_def ex_foreign_pkg_def ex_mod_def ex_var_loaded_def
      LastIndexByte_def generateKnownType_def getKnownType_def Let_def sizeImplForStruct_def
      eval_nat_numeral isString_def size_id_def append_impl_def named_String_def
      cachedSize_func_def generateRemainingKnownTypes_def is_generated_def

text \<open>
  C9. The output depends on the order in which the driver ranges over the registry,
  which Go leaves open. On the packages \<open>m/a\<close> and \<open>m/b\<close> above with the root
  \<open>m/a.R\<close>, the registry after the roots holds \<open>R\<close> (generated), \<open>I\<close> and \<open>T\<close>
  (both locally owned, not POD, not yet generated). When the pass meets \<open>I\<close> before
  \<open>T\<close>, \<open>generateType\<close> finds \<open>b.T\<close> in the scope of \<open>m/a\<close> and appends its
  method to the file of \<open>m/a\<close>, the file of the interface: the writer renders one
  file, for \<open>m/a\<close>, with the methods of \<open>R\<close> and \<open>T\<close>. When the pass meets \<open>T\<close>
  first, \<open>generateKnownType\<close> appends the method to the file of \<open>m/b\<close>: the writer
  renders two files, \<open>m/a\<close> with the method of \<open>R\<close> and \<open>m/b\<close> with the method of
  \<open>T\<close>. Each file is sorted by name in both runs; the two runs differ all the same.
\<close>

theorem generator_order_dependent:
  "(case generateCode 3 ex_var ex_var_loaded [''m/a.R''] of
      Ok (Inr s) \<Rightarrow>
        map (known s) [0, 1, 2] =
          [Some \<lparr>generated = True, local = True, pod = False\<rparr>,
           Some \<lparr>generated = False, local = True, pod = False\<rparr>,
           Some \<lparr>generated = False, local = True, pod = False\<rparr>] \<and>
        (case generateRemainingKnownTypes 3 ex_var [[1, 2, 0], [1, 2, 0]] s of
           Ok (code1, s1, n1) \<Rightarrow>
             (case generateRemainingKnownTypes 3 ex_var [[2, 1, 0], [2, 1, 0]] s of
                Ok (code2, s2, n2) \<Rightarrow>
                  rendered_methods
                    (snd (writeGeneratedCode code1 ex_wr_ok ex_fmt [''m/a'', ''m/b''])) =
                    [([''/src'', ''/a'', ''cached_size.go''],
                      [Star (Ident ''R''), Star (Ident ''T'')])] \<and>
                  rendered_methods
                    (snd (writeGeneratedCode code2 ex_wr_ok ex_fmt [''m/a'', ''m/b''])) =
                    [([''/src'', ''/a'', ''cached_size.go''], [Star (Ident ''R'')]),
                     ([''/src'', ''/b'', ''cached_size.go''], [Star (Ident ''T'')])]
              | _ \<Rightarrow> False)
         | _ \<Rightarrow> False)
    | _ \<Rightarrow> False)"
  by (simp add: var_defs writeGeneratedCode_def fullPath_of_def TrimPrefix_def sort_Slice_def
      Render_def ex_fmt_def isIdent_def render_file_def impl_decls_def ex_wr_ok_def
      codeWithInterface_def codeWithUnsafe_def)

section \<open>Where the output does not depend on the order\<close>

text \<open>
  Away from the case above the order does not matter. If every named type found in
  a package scope is declared in a package of that path (\<open>scope_local\<close>), two runs
  of the driver from the same generator, under any iteration orders, mark the same
  types generated and leave the same entries in every file, up to their order, which
  the writer's sort removes.
\<close>

lemma gen_effect_refl: "gen_effect d G b s [] s"
  by (auto simp: gen_effect_def)

lemma iface_closed_mono:
  "step s s' \<Longrightarrow> iface_closed G s n \<Longrightarrow> iface_closed G s' n"
  unfolding iface_closed_def impls_generated_def impl_of_def step_def
  by (cases "Underlying (Decl G n)") auto

lemma gen_effect_trans:
  assumes "gen_effect d G b s ms1 s1" "gen_effect d G b s1 ms2 s2" "step s1 s2"
  shows "gen_effect d G b s (ms1 @ ms2) s2"
proof -
  have "\<forall>x \<in> set ms2. \<not> is_generated s1 x" "\<forall>x \<in> set ms1. is_generated s1 x"
    using assms(1,2) unfolding gen_effect_def by simp_all
  then have d: "set ms1 \<inter> set ms2 = {}" by blast
  have g1: "\<And>x. is_generated s1 x = (is_generated s x \<or> x \<in> set ms1)"
    and g2: "\<And>x. is_generated s2 x = (is_generated s1 x \<or> x \<in> set ms2)"
    using assms(1,2) unfolding gen_effect_def by simp_all
  have k1: "dom (known s1) = dom (known s) \<union> set ms1 \<union> (\<Union>x \<in> set ms1. refs d G b x)"
    and k2: "dom (known s2) = dom (known s1) \<union> set ms2 \<union> (\<Union>x \<in> set ms2. refs d G b x)"
    using assms(1,2) unfolding gen_effect_def by simp_all
  have f1: "\<And>p. file_impls s1 p =
             file_impls s p @ concat (map (impl_list d G b) (filter (\<lambda>x. pkg_path G x = p) ms1))"
    and f2: "\<And>p. file_impls s2 p =
             file_impls s1 p @ concat (map (impl_list d G b) (filter (\<lambda>x. pkg_path G x = p) ms2))"
    using assms(1,2) unfolding gen_effect_def by simp_all
  have p1: "\<And>p. codegen s p \<noteq> None \<Longrightarrow> file_pkg s1 p = file_pkg s p"
    and p2: "\<And>p. codegen s1 p \<noteq> None \<Longrightarrow> file_pkg s2 p = file_pkg s1 p"
    using assms(1,2) unfolding gen_effect_def by simp_all
  have n1: "\<And>p. codegen s p = None \<Longrightarrow> codegen s1 p \<noteq> None \<Longrightarrow>
             (\<exists>n. pkg_path G n = p \<and> file_pkg s1 p = Some (Name (Obj_Pkg (Decl G n))))"
    and n2: "\<And>p. codegen s1 p = None \<Longrightarrow> codegen s2 p \<noteq> None \<Longrightarrow>
             (\<exists>n. pkg_path G n = p \<and> file_pkg s2 p = Some (Name (Obj_Pkg (Decl G n))))"
    using assms(1,2) unfolding gen_effect_def by simp_all
  have c1: "\<forall>x \<in> set ms1. iface_closed G s1 x" and c2: "\<forall>x \<in> set ms2. iface_closed G s2 x"
    using assms(1,2) unfolding gen_effect_def by simp_all
  have nn: "codegen s1 p \<noteq> None" if "codegen s p \<noteq> None" for p
    using p1 [OF that] that by (cases "codegen s p"; cases "codegen s1 p") (simp_all add: file_pkg_def)
  show ?thesis
    unfolding gen_effect_def
  proof (intro conjI allI impI ballI)
    show "distinct (ms1 @ ms2)" using assms(1,2) d unfolding gen_effect_def by simp
    show "\<not> is_generated s x" if "x \<in> set (ms1 @ ms2)" for x
      using that assms(1,2) g1 unfolding gen_effect_def by auto
    show "is_generated s2 x = (is_generated s x \<or> x \<in> set (ms1 @ ms2))" for x
      using g1 g2 by auto
    show "dom (known s2) = dom (known s) \<union> set (ms1 @ ms2) \<union> (\<Union>x \<in> set (ms1 @ ms2). refs d G b x)"
      using k1 k2 by auto
    show "file_impls s2 p = file_impls s p @
            concat (map (impl_list d G b) (filter (\<lambda>x. pkg_path G x = p) (ms1 @ ms2)))" for p
      using f1 f2 by simp
    show "file_pkg s2 p = file_pkg s p" if "codegen s p \<noteq> None" for p
      using p1 [OF that] p2 [OF nn [OF that]] by simp
    show "\<exists>n. pkg_path G n = p \<and> file_pkg s2 p = Some (Name (Obj_Pkg (Decl G n)))"
      if "codegen s p = None \<and> codegen s2 p \<noteq> None" for p
    proof (cases "codegen s1 p")
      case None
      with that n2 show ?thesis by blast
    next
      case (Some f)
      with that n1 [of p] p2 [of p] show ?thesis by auto
    qed
    show "iface_closed G s2 x" if "x \<in> set (ms1 @ ms2)" for x
      using that c1 c2 iface_closed_mono [OF assms(3)] by auto
  qed
qed

lemma consistent_empty_known: "consistent G (b\<lparr>known := Map.empty\<rparr>)"
  by (simp add: consistent_def)

lemma struct_walk_step:
  assumes "consistent G s" "step b s" "Underlying (Decl G n) = Struct fs"
    and "sizeImplForStruct d G (Obj_Name (Decl G n)) fs s = Ok ((impl, flag), s3)"
  shows "dom (known s3) = dom (known s) \<union> refs d G b n"
    and "is_generated s3 = is_generated s"
    and "codegen s3 = codegen s"
    and "impl_list d G b n =
           (case impl of None \<Rightarrow> []
            | Some f \<Rightarrow> [\<lparr>impl_name = named_String G n, impl_flags = flag, impl_code = f\<rparr>])"
proof -
  let ?e = "b\<lparr>known := Map.empty\<rparr>"
  have env: "mod' ?e = mod' s" "sizes ?e = sizes s" "DebugTypes ?e = DebugTypes s"
    using assms(2) by (simp_all add: step_def)
  from sizeImplForStruct_indep [OF assms(1) consistent_empty_known env assms(4)] obtain K where
    K: "init_entries G (mod' s) K" "s3 = s\<lparr>known := K ++ known s\<rparr>"
       "sizeImplForStruct d G (Obj_Name (Decl G n)) fs ?e = Ok ((impl, flag), ?e\<lparr>known := K ++ known ?e\<rparr>)"
    by blast
  have w: "struct_walk d G b n = Ok ((impl, flag), ?e\<lparr>known := K\<rparr>)"
    using K(3) assms(3) by (simp add: struct_walk_def)
  show "dom (known s3) = dom (known s) \<union> refs d G b n"
    using K(2) w by (auto simp: refs_def)
  show "is_generated s3 = is_generated s"
    using K(1,2) by (simp add: fun_eq_iff is_generated_add)
  show "codegen s3 = codegen s" using K(2) by simp
  show "impl_list d G b n =
           (case impl of None \<Rightarrow> []
            | Some f \<Rightarrow> [\<lparr>impl_name = named_String G n, impl_flags = flag, impl_code = f\<rparr>])"
    using w by (simp add: impl_list_def split: option.splits)
qed

lemma not_struct_walk:
  assumes "\<not> is_struct G n"
  shows "refs d G b n = {}" "impl_list d G b n = []"
  using assms
  by (cases "Underlying (Decl G n)"; simp add: is_struct_def refs_def impl_list_def struct_walk_def)+

lemma file_impls_mark [simp]: "file_impls (mark G n s) p = file_impls s p"
  by (simp add: file_impls_def mark_def)

lemma file_pkg_mark [simp]: "file_pkg (mark G n s) p = file_pkg s p"
  by (simp add: file_pkg_def mark_def)

lemma codegen_mark [simp]: "codegen (mark G n s) = codegen s"
  by (simp add: mark_def)

lemma dom_known_mark [simp]: "dom (known (mark G n s)) = insert n (dom (known s))"
  by (simp add: mark_def)

lemma gen_effect_mark_cons:
  assumes "\<not> is_generated s n" "\<not> is_struct G n"
    and "gen_effect d G b (mark G n s) ms s'" "iface_closed G s' n"
  shows "gen_effect d G b s (n # ms) s'"
proof -
  note e = assms(3) [unfolded gen_effect_def]
  note ns = not_struct_walk [OF assms(2), of d b]
  have nm: "n \<notin> set ms" using e by (auto simp: is_generated_mark)
  show ?thesis
    unfolding gen_effect_def
  proof (intro conjI allI impI ballI)
    show "distinct (n # ms)" using e nm by simp
    show "\<not> is_generated s x" if "x \<in> set (n # ms)" for x
      using that e assms(1) by (auto simp: is_generated_mark)
    show "is_generated s' x = (is_generated s x \<or> x \<in> set (n # ms))" for x
      using e by (auto simp: is_generated_mark)
    show "dom (known s') = dom (known s) \<union> set (n # ms) \<union> (\<Union>x \<in> set (n # ms). refs d G b x)"
      using e ns by auto
    show "file_impls s' p = file_impls s p @
            concat (map (impl_list d G b) (filter (\<lambda>x. pkg_path G x = p) (n # ms)))" for p
      using e ns by simp
    show "file_pkg s' p = file_pkg s p" if "codegen s p \<noteq> None" for p
      using e that by simp
    show "\<exists>m. pkg_path G m = p \<and> file_pkg s' p = Some (Name (Obj_Pkg (Decl G m)))"
      if "codegen s p = None \<and> codegen s' p \<noteq> None" for p
      using e that by simp
    show "iface_closed G s' x" if "x \<in> set (n # ms)" for x
      using that e assms(4) by auto
  qed
qed

lemma gen_effect_struct:
  assumes "inv8 G s" "step b s" "\<not> is_generated s n" "Underlying (Decl G n) = Struct fs"
    and "codegen s (pkg_path G n) \<noteq> None"
    and "sizeImplForStruct d G (Obj_Name (Decl G n)) fs (mark G n s) = Ok ((impl, flag), s3)"
    and "s' = (case impl of None \<Rightarrow> s3
              | Some f \<Rightarrow> append_impl (pkg_path G n)
                  \<lparr>impl_name = named_String G n, impl_flags = flag, impl_code = f\<rparr> s3)"
  shows "gen_effect d G b s [n] s'"
proof -
  let ?s2 = "mark G n s"
  have c2: "consistent G ?s2" using assms(1) by (simp add: inv8_def consistent_mark)
  have st2: "step b ?s2" using assms(2) step_mark by (rule step_trans)
  note w = struct_walk_step [OF c2 st2 assms(4,6)]
  obtain f0 where f0: "codegen s (pkg_path G n) = Some f0" using assms(5) by blast
  have k: "known s' = known s3" using assms(7)
    by (simp add: append_impl_def split: option.splits)
  have g: "is_generated s' = is_generated s3"
    using k by (simp add: is_generated_def fun_eq_iff)
  have cg: "codegen s' = (case impl of None \<Rightarrow> codegen s
      | Some f \<Rightarrow> (codegen s)(pkg_path G n \<mapsto> f0\<lparr>impls := impls f0 @
           [\<lparr>impl_name = named_String G n, impl_flags = flag, impl_code = f\<rparr>]\<rparr>))"
    using assms(7) w(3) f0 by (simp add: append_impl_def split: option.splits)
  have ic: "iface_closed G s' n" using assms(4) by (simp add: iface_closed_def)
  show ?thesis
    unfolding gen_effect_def
  proof (intro conjI allI impI ballI)
    show "distinct [n]" by simp
    show "\<not> is_generated s x" if "x \<in> set [n]" for x using that assms(3) by simp
    show "is_generated s' x = (is_generated s x \<or> x \<in> set [n])" for x
      unfolding g w(2) by (auto simp: is_generated_mark)
    show "dom (known s') = dom (known s) \<union> set [n] \<union> (\<Union>x \<in> set [n]. refs d G b x)"
      unfolding k w(1) by auto
    show "file_impls s' p = file_impls s p @
            concat (map (impl_list d G b) (filter (\<lambda>x. pkg_path G x = p) [n]))" for p
      using cg f0 w(4) by (cases impl) (auto simp: file_impls_def)
    show "file_pkg s' p = file_pkg s p" if "codegen s p \<noteq> None" for p
      using cg f0 by (cases impl) (auto simp: file_pkg_def)
    show "\<exists>m. pkg_path G m = p \<and> file_pkg s' p = Some (Name (Obj_Pkg (Decl G m)))"
      if "codegen s p = None \<and> codegen s' p \<noteq> None" for p
      using that cg f0 by (cases impl) (auto split: if_splits)
    show "iface_closed G s' x" if "x \<in> set [n]" for x using that ic by simp
  qed
qed

lemma impls_generated_Cons:
  "impls_generated G s iface (obj # rest) =
     ((\<forall>m. (Implements G (snd obj) iface \<or> Implements G (Pointer (snd obj)) iface) \<and>
           snd obj = Named m \<and> is_struct G m \<longrightarrow> is_generated s m) \<and>
      impls_generated G s iface rest)"
  by (auto simp: impls_generated_def impl_of_def)

lemma impls_generated_mono:
  "step s s' \<Longrightarrow> impls_generated G s iface objs \<Longrightarrow> impls_generated G s' iface objs"
  by (auto simp: impls_generated_def step_def)

lemma generateType_effect:
  "inv8 G s \<Longrightarrow> step b s \<Longrightarrow> codegen s fk \<noteq> None \<Longrightarrow> pkg_path G n = fk \<Longrightarrow>
   (\<forall>ms. Underlying (Decl G n) = Interface ms \<longrightarrow> pk = Obj_Pkg (Decl G n)) \<Longrightarrow>
   scope_local G \<Longrightarrow> generateType d G pk fk n s = Ok s' \<Longrightarrow>
     \<exists>news. gen_effect d G b s news s' \<and> (\<forall>x \<in> set news. forced G n x)"
  "inv8 G s \<Longrightarrow> step b s \<Longrightarrow> codegen s fk \<noteq> None \<Longrightarrow>
   (\<forall>obj \<in> set objs. \<forall>m. snd obj = Named m \<longrightarrow> pkg_path G m = fk) \<Longrightarrow>
   scope_local G \<Longrightarrow> generateType_impls d G pk fk iface objs s = Ok s' \<Longrightarrow>
     \<exists>news. gen_effect d G b s news s' \<and> (\<forall>x \<in> set news. impl_of G iface objs x) \<and>
            impls_generated G s' iface objs"
proof (induction d G pk fk n s and d G pk fk iface objs s arbitrary: s' and s'
    rule: generateType_generateType_impls.induct)
  case (1 d G pk fk n s)
  note inv = "1.prems"(1) and sb = "1.prems"(2) and cf = "1.prems"(3) and pn = "1.prems"(4)
    and pkn = "1.prems"(5) and sl = "1.prems"(6) and run = "1.prems"(7)
  have cs: "consistent G s" using inv by (simp add: inv8_def)
  obtain ts s1 where g: "getKnownType G n s = (ts, s1)" by (cases "getKnownType G n s")
  note mk = getKnownType_mark [OF cs g]
  show ?case
  proof (cases "generated ts")
    case True
    then have "s' = s" using run g getKnownType_generated_same [OF g] by simp
    then show ?thesis using gen_effect_refl [of d G b s] by (intro exI [of _ "[]"]) simp
  next
    case ng: False
    then have ngs: "\<not> is_generated s n" using mk(2) by simp
    let ?s2 = "mark G n s"
    have i2: "inv8 G ?s2" using inv by (rule inv8_mark)
    have sb2: "step b ?s2" using sb step_mark by (rule step_trans)
    have s2eq: "s1\<lparr>known := (known s1)(n \<mapsto> ts\<lparr>generated := True\<rparr>)\<rparr> = ?s2" by (rule mk(1))
    show ?thesis
    proof (cases "Underlying (Decl G n)")
      case (Struct fs)
      from run g ng Struct s2eq obtain impl flag s3 where
        w: "sizeImplForStruct d G (Obj_Name (Decl G n)) fs ?s2 = Ok ((impl, flag), s3)" and
        r: "s' = (case impl of None \<Rightarrow> s3
              | Some f \<Rightarrow> append_impl fk
                  \<lparr>impl_name = named_String G n, impl_flags = flag, impl_code = f\<rparr> s3)"
        by (auto simp: Let_def split: result.splits option.splits)
      have "gen_effect d G b s [n] s'"
        using inv sb ngs Struct cf w r unfolding pn [symmetric] by (rule gen_effect_struct)
      then show ?thesis by (intro exI [of _ "[n]"]) (simp add: forced_def)
    next
      case (Interface ms)
      have run': "generateType_impls d G pk fk (Interface ms) (Scope pk) ?s2 = Ok s'"
        using run g ng Interface s2eq by (simp add: Let_def)
      have pk: "pk = Obj_Pkg (Decl G n)" using pkn Interface by simp
      have sc: "\<forall>obj \<in> set (Scope pk). \<forall>m. snd obj = Named m \<longrightarrow> pkg_path G m = fk"
        using sl pk pn unfolding scope_local_def by blast
      have cf2: "codegen ?s2 fk \<noteq> None" using cf by simp
      from "1.IH" [OF g [symmetric] ng s2eq [symmetric] Interface _ _ _ sc sl run']
        i2 sb2 cf2 s2eq
      obtain news where
        e: "gen_effect d G b ?s2 news s'" "\<forall>x \<in> set news. impl_of G (Interface ms) (Scope pk) x"
           "impls_generated G s' (Interface ms) (Scope pk)"
        by auto
      have ns: "\<not> is_struct G n" using Interface by (simp add: is_struct_def)
      have ic: "iface_closed G s' n" using e(3) Interface pk by (simp add: iface_closed_def)
      have "gen_effect d G b s (n # news) s'"
        using ngs ns e(1) ic by (rule gen_effect_mark_cons)
      with e(2) show ?thesis
        using Interface pk by (intro exI [of _ "n # news"]) (simp add: forced_def)
    next
      case (Basic x)
      then have r: "s' = ?s2" using run g ng s2eq by (simp add: Let_def)
      have ns: "\<not> is_struct G n" using Basic by (simp add: is_struct_def)
      have ic: "iface_closed G s' n" using Basic by (simp add: iface_closed_def)
      have "gen_effect d G b s (n # []) s'"
        using ngs ns gen_effect_refl ic unfolding r by (rule gen_effect_mark_cons)
      then show ?thesis by (intro exI [of _ "[n]"]) (simp add: forced_def)
    next
      case (Pointer x)
      then have r: "s' = ?s2" using run g ng s2eq by (simp add: Let_def)
      have ns: "\<not> is_struct G n" using Pointer by (simp add: is_struct_def)
      have ic: "iface_closed G s' n" using Pointer by (simp add: iface_closed_def)
      have "gen_effect d G b s (n # []) s'"
        using ngs ns gen_effect_refl ic unfolding r by (rule gen_effect_mark_cons)
      then show ?thesis by (intro exI [of _ "[n]"]) (simp add: forced_def)
    next
      case (Slice x)
      then have r: "s' = ?s2" using run g ng s2eq by (simp add: Let_def)
      have ns: "\<not> is_struct G n" using Slice by (simp add: is_struct_def)
      have ic: "iface_closed G s' n" using Slice by (simp add: iface_closed_def)
      have "gen_effect d G b s (n # []) s'"
        using ngs ns gen_effect_refl ic unfolding r by (rule gen_effect_mark_cons)
      then show ?thesis by (intro exI [of _ "[n]"]) (simp add: forced_def)
    next
      case (Map x y)
      then have r: "s' = ?s2" using run g ng s2eq by (simp add: Let_def)
      have ns: "\<not> is_struct G n" using Map by (simp add: is_struct_def)
      have ic: "iface_closed G s' n" using Map by (simp add: iface_closed_def)
      have "gen_effect d G b s (n # []) s'"
        using ngs ns gen_effect_refl ic unfolding r by (rule gen_effect_mark_cons)
      then show ?thesis by (intro exI [of _ "[n]"]) (simp add: forced_def)
    next
      case (Named x)
      then have r: "s' = ?s2" using run g ng s2eq by (simp add: Let_def)
      have ns: "\<not> is_struct G n" using Named by (simp add: is_struct_def)
      have ic: "iface_closed G s' n" using Named by (simp add: iface_closed_def)
      have "gen_effect d G b s (n # []) s'"
        using ngs ns gen_effect_refl ic unfolding r by (rule gen_effect_mark_cons)
      then show ?thesis by (intro exI [of _ "[n]"]) (simp add: forced_def)
    next
      case (Array x y)
      then have r: "s' = ?s2" using run g ng s2eq by (simp add: Let_def)
      have ns: "\<not> is_struct G n" using Array by (simp add: is_struct_def)
      have ic: "iface_closed G s' n" using Array by (simp add: iface_closed_def)
      have "gen_effect d G b s (n # []) s'"
        using ngs ns gen_effect_refl ic unfolding r by (rule gen_effect_mark_cons)
      then show ?thesis by (intro exI [of _ "[n]"]) (simp add: forced_def)
    next
      case (Chan x)
      then have r: "s' = ?s2" using run g ng s2eq by (simp add: Let_def)
      have ns: "\<not> is_struct G n" using Chan by (simp add: is_struct_def)
      have ic: "iface_closed G s' n" using Chan by (simp add: iface_closed_def)
      have "gen_effect d G b s (n # []) s'"
        using ngs ns gen_effect_refl ic unfolding r by (rule gen_effect_mark_cons)
      then show ?thesis by (intro exI [of _ "[n]"]) (simp add: forced_def)
    next
      case Signature
      then have r: "s' = ?s2" using run g ng s2eq by (simp add: Let_def)
      have ns: "\<not> is_struct G n" using Signature by (simp add: is_struct_def)
      have ic: "iface_closed G s' n" using Signature by (simp add: iface_closed_def)
      have "gen_effect d G b s (n # []) s'"
        using ngs ns gen_effect_refl ic unfolding r by (rule gen_effect_mark_cons)
      then show ?thesis by (intro exI [of _ "[n]"]) (simp add: forced_def)
    qed
  qed
next
  case (2 d G pk fk iface s)
  then show ?case
    using gen_effect_refl [of d G b s]
    by (intro exI [of _ "[]"]) (simp add: impls_generated_def impl_of_def)
next
  case (3 d G pk fk iface obj rest s)
  note inv = "3.prems"(1) and sb = "3.prems"(2) and cf = "3.prems"(3) and sc = "3.prems"(4)
    and sl = "3.prems"(5) and run = "3.prems"(6)
  have scr: "\<forall>obj \<in> set rest. \<forall>m. snd obj = Named m \<longrightarrow> pkg_path G m = fk"
    using sc by simp
  have skip: ?case
    if r: "generateType_impls d G pk fk iface rest s = Ok s'"
      and ih: "\<exists>news. gen_effect d G b s news s' \<and> (\<forall>x \<in> set news. impl_of G iface rest x) \<and>
            impls_generated G s' iface rest"
      and no: "\<not> ((Implements G (snd obj) iface \<or> Implements G (Pointer (snd obj)) iface) \<and>
                (\<exists>fs. underlying G (snd obj) = Struct fs))"
  proof -
    have "\<forall>m. (Implements G (snd obj) iface \<or> Implements G (Pointer (snd obj)) iface) \<and>
           snd obj = Named m \<and> is_struct G m \<longrightarrow> is_generated s' m"
      using no by (auto simp: is_struct_def split: gotype.splits)
    with ih show ?thesis unfolding impls_generated_Cons using impl_of_Cons by blast
  qed
  show ?case
  proof (cases "Implements G (snd obj) iface \<or> Implements G (Pointer (snd obj)) iface")
    case False
    then have r: "generateType_impls d G pk fk iface rest s = Ok s'" using run by simp
    from "3.IH"(12) [OF False inv sb cf scr sl r] r False show ?thesis by (intro skip) auto
  next
    case im: True
    show ?thesis
    proof (cases "underlying G (snd obj)")
      case u: (Struct fs)
      from run im u obtain m where m: "snd obj = Named m"
        by (cases "snd obj") auto
      from run im u m obtain s1 where
        r1: "generateType d G pk fk m s = Ok s1" and
        r2: "generateType_impls d G pk fk iface rest s1 = Ok s'"
        by (auto split: result.splits)
      have um: "Underlying (Decl G m) = Struct fs" using u m by simp
      have pm: "pkg_path G m = fk" using sc m by simp
      have ni: "\<forall>ms. Underlying (Decl G m) = Interface ms \<longrightarrow> pk = Obj_Pkg (Decl G m)"
        using um by simp
      from "3.IH"(2) [OF im u m inv sb cf pm ni sl r1] obtain ms1 where
        e1: "gen_effect d G b s ms1 s1" "\<forall>x \<in> set ms1. forced G m x" by blast
      from generateType_inv8(1) [OF inv r1] have
        a: "inv8 G s1" "step s s1" "is_generated s1 m" by simp_all
      have sb1: "step b s1" using sb a(2) by (rule step_trans)
      have cf1: "codegen s1 fk \<noteq> None" using a(2) cf by (rule step_codegen_Some)
      from "3.IH"(3) [OF im u m r1 a(1) sb1 cf1 scr sl r2] obtain ms2 where
        e2: "gen_effect d G b s1 ms2 s'" "\<forall>x \<in> set ms2. impl_of G iface rest x"
            "impls_generated G s' iface rest" by blast
      from generateType_inv8(2) [OF a(1) r2] have st: "step s1 s'" by simp
      have e: "gen_effect d G b s (ms1 @ ms2) s'" using e1(1) e2(1) st by (rule gen_effect_trans)
      have sm: "is_struct G m" using um by (simp add: is_struct_def)
      have "is_generated s' m" using a(3) st by (simp add: step_def)
      then have ig: "impls_generated G s' iface (obj # rest)"
        unfolding impls_generated_Cons using e2(3) m by simp
      have im_m: "impl_of G iface (obj # rest) m"
        using im m sm by (auto simp: impl_of_def)
      have "\<forall>x \<in> set ms1. x = m" using e1(2) um by (simp add: forced_def)
      then have "\<forall>x \<in> set (ms1 @ ms2). impl_of G iface (obj # rest) x"
        using e2(2) im_m impl_of_Cons [of G iface rest _ obj] by auto
      with e ig show ?thesis by blast
    next
      case u: (Basic x)
      then have r: "generateType_impls d G pk fk iface rest s = Ok s'" using run im by simp
      from "3.IH"(1) [OF im u inv sb cf scr sl r] r u show ?thesis by (intro skip) auto
    next
      case u: (Pointer x)
      then have r: "generateType_impls d G pk fk iface rest s = Ok s'" using run im by simp
      from "3.IH"(4) [OF im u inv sb cf scr sl r] r u show ?thesis by (intro skip) auto
    next
      case u: (Slice x)
      then have r: "generateType_impls d G pk fk iface rest s = Ok s'" using run im by simp
      from "3.IH"(5) [OF im u inv sb cf scr sl r] r u show ?thesis by (intro skip) auto
    next
      case u: (Map x y)
      then have r: "generateType_impls d G pk fk iface rest s = Ok s'" using run im by simp
      from "3.IH"(6) [OF im u inv sb cf scr sl r] r u show ?thesis by (intro skip) auto
    next
      case u: (Interface x)
      then have r: "generateType_impls d G pk fk iface rest s = Ok s'" using run im by simp
      from "3.IH"(7) [OF im u inv sb cf scr sl r] r u show ?thesis by (intro skip) auto
    next
      case u: (Named x)
      then have r: "generateType_impls d G pk fk iface rest s = Ok s'" using run im by simp
      from "3.IH"(8) [OF im u inv sb cf scr sl r] r u show ?thesis by (intro skip) auto
    next
      case u: (Array x y)
      then have r: "generateType_impls d G pk fk iface rest s = Ok s'" using run im by simp
      from "3.IH"(9) [OF im u inv sb cf scr sl r] r u show ?thesis by (intro skip) auto
    next
      case u: (Chan x)
      then have r: "generateType_impls d G pk fk iface rest s = Ok s'" using run im by simp
      from "3.IH"(10) [OF im u inv sb cf scr sl r] r u show ?thesis by (intro skip) auto
    next
      case u: Signature
      then have r: "generateType_impls d G pk fk iface rest s = Ok s'" using run im by simp
      from "3.IH"(11) [OF im u inv sb cf scr sl r] r u show ?thesis by (intro skip) auto
    qed
  qed
qed

lemma gen_effect_ensure_file:
  assumes "codegen s p = None" "p = pkg_path G n"
  shows "gen_effect d G b s [] (s\<lparr>codegen := (codegen s)(p \<mapsto>
            \<lparr>pkg = Name (Obj_Pkg (Decl G n)), impls = []\<rparr>)\<rparr>)"
  using assms
  by (auto simp: gen_effect_def is_generated_def file_impls_def file_pkg_def)

lemma generateKnownType_effect:
  assumes "inv8 G s" "step b s" "scope_local G" "generateKnownType d G n s = Ok s'"
  shows "\<exists>news. gen_effect d G b s news s' \<and> (\<forall>x \<in> set news. forced G n x)"
proof (cases "codegen s (Path (Obj_Pkg (Decl G n)))")
  case None
  let ?p = "Path (Obj_Pkg (Decl G n))"
  let ?s1 = "s\<lparr>codegen := (codegen s)(?p \<mapsto> \<lparr>pkg = Name (Obj_Pkg (Decl G n)), impls = []\<rparr>)\<rparr>"
  have r: "generateType d G (Obj_Pkg (Decl G n)) ?p n ?s1 = Ok s'"
    using assms(4) None by (simp add: generateKnownType_def Let_def)
  have i1: "inv8 G ?s1" using assms(1) None by (rule inv8_ensure_file)
  have sb1: "step b ?s1" using assms(2) step_ensure_file by (rule step_trans)
  have e0: "gen_effect d G b s [] ?s1"
    using None by (rule gen_effect_ensure_file) (simp add: pkg_path_def)
  from generateType_effect(1) [OF i1 sb1 _ _ _ assms(3) r] obtain news where
    e1: "gen_effect d G b ?s1 news s'" "\<forall>x \<in> set news. forced G n x"
    by (auto simp: pkg_path_def)
  from generateType_inv8(1) [OF i1 r] have st: "step ?s1 s'" by simp
  from gen_effect_trans [OF e0 e1(1) st] e1(2) show ?thesis by auto
next
  case (Some f)
  have r: "generateType d G (Obj_Pkg (Decl G n)) (Path (Obj_Pkg (Decl G n))) n s = Ok s'"
    using assms(4) Some by (simp add: generateKnownType_def Let_def)
  from generateType_effect(1) [OF assms(1,2) _ _ _ assms(3) r] Some show ?thesis
    by (auto simp: pkg_path_def)
qed

lemma known_pass_effect:
  "inv8 G s \<Longrightarrow> step b s \<Longrightarrow> scope_local G \<Longrightarrow> known_pass d G ord c s = Ok (c', s') \<Longrightarrow>
     \<exists>news. gen_effect d G b s news s'"
proof (induction ord arbitrary: c s)
  case Nil
  then have "s' = s" by simp
  then show ?case using gen_effect_refl by blast
next
  case (Cons tt rest)
  note inv = Cons.prems(1) and sb = Cons.prems(2) and sl = Cons.prems(3) and run = Cons.prems(4)
  show ?case
  proof (cases "\<exists>ts. known s tt = Some ts \<and> local ts \<and> \<not> pod ts \<and> \<not> generated ts")
    case False
    then have r: "known_pass d G rest c s = Ok (c', s')"
      using run by (auto simp: Let_def split: option.splits)
    from Cons.IH [OF inv sb sl r] show ?thesis .
  next
    case True
    then obtain ts where ts: "known s tt = Some ts" "local ts" "\<not> pod ts" "\<not> generated ts"
      by blast
    from run ts obtain s1 where
      r1: "generateKnownType d G tt s = Ok s1" and r2: "known_pass d G rest False s1 = Ok (c', s')"
      by (auto simp: Let_def split: result.splits)
    from generateKnownType_inv8 [OF inv r1] have a: "inv8 G s1" "step s s1" by simp_all
    from generateKnownType_effect [OF inv sb sl r1] obtain ms1 where
      e1: "gen_effect d G b s ms1 s1" by blast
    have sb1: "step b s1" using sb a(2) by (rule step_trans)
    from Cons.IH [OF a(1) sb1 sl r2] obtain ms2 where e2: "gen_effect d G b s1 ms2 s'" by blast
    from known_pass_inv8 [OF a(1) r2] have st: "step s1 s'" by simp
    from gen_effect_trans [OF e1 e2 st] show ?thesis by blast
  qed
qed

lemma remaining_loop_effect:
  "inv8 G s \<Longrightarrow> step b s \<Longrightarrow> scope_local G \<Longrightarrow>
   remaining_loop d G orders k s = Ok (code, s', passes) \<Longrightarrow>
     \<exists>news. gen_effect d G b s news s'"
proof (induction orders arbitrary: k s)
  case Nil
  then show ?case by simp
next
  case (Cons ord rest)
  note inv = Cons.prems(1) and sb = Cons.prems(2) and sl = Cons.prems(3) and run = Cons.prems(4)
  from run obtain c s1 where p: "known_pass d G ord True s = Ok (c, s1)"
    by (auto split: result.splits)
  from known_pass_inv8 [OF inv p] have a: "inv8 G s1" "step s s1" by simp_all
  from known_pass_effect [OF inv sb sl p] obtain ms1 where e1: "gen_effect d G b s ms1 s1"
    by blast
  show ?case
  proof (cases c)
    case True
    then have "s' = s1" using run p by simp
    with e1 show ?thesis by blast
  next
    case False
    then have r: "remaining_loop d G rest (Suc k) s1 = Ok (code, s', passes)"
      using run p by simp
    have sb1: "step b s1" using sb a(2) by (rule step_trans)
    from Cons.IH [OF a(1) sb1 sl r] obtain ms2 where e2: "gen_effect d G b s1 ms2 s'" by blast
    from remaining_loop_inv8 [OF a(1) r] have st: "step s1 s'" by simp
    from gen_effect_trans [OF e1 e2 st] show ?thesis by blast
  qed
qed

lemma is_generated_known: "is_generated s x \<Longrightarrow> x \<in> dom (known s)"
  by (auto simp: is_generated_def split: option.splits)

lemma gen_effect_below:
  assumes "absorbs d G b T" "below s T" "step b s" "gen_effect d G b s news s'"
    and "\<forall>x \<in> set news. is_generated T x"
  shows "below s' T"
proof -
  note e = assms(4) [unfolded gen_effect_def]
  have ng: "\<not> is_generated b x" if "x \<in> set news" for x
  proof -
    from that e have "\<not> is_generated s x" by blast
    with assms(3) show ?thesis unfolding step_def by blast
  qed
  have r: "refs d G b x \<subseteq> dom (known T)" if "x \<in> set news" for x
    using assms(1,5) ng [OF that] that unfolding absorbs_def by blast
  have k: "set news \<subseteq> dom (known T)"
    using assms(5) is_generated_known by blast
  have "dom (known s') = dom (known s) \<union> set news \<union> (\<Union>x \<in> set news. refs d G b x)"
    using e by blast
  then have d: "dom (known s') \<subseteq> dom (known T)"
    using assms(2) k r unfolding below_def by blast
  have "is_generated T x" if "is_generated s' x" for x
  proof -
    from e have "is_generated s' x = (is_generated s x \<or> x \<in> set news)" by blast
    with that assms(2,5) show ?thesis unfolding below_def by blast
  qed
  with d show ?thesis unfolding below_def by blast
qed

lemma generateKnownType_below:
  assumes "absorbs d G b T" "below s T" "inv8 G s" "step b s" "mod' T = mod' s"
    and "scope_local G"
    and "known s n = Some ts" "local ts" "\<not> pod ts" "\<not> generated ts"
    and "generateKnownType d G n s = Ok s'"
  shows "below s' T"
proof -
  have cs: "consistent G s" using assms(3) by (rule inv8_consistent)
  from cs assms(7-9) have lp: "local_of G (mod' s) n" "\<not> isPod (Underlying (Decl G n))"
    unfolding consistent_def by auto
  have "n \<in> dom (known T)" using assms(2,7) unfolding below_def by blast
  with assms(1,5) lp have gT: "is_generated T n" unfolding absorbs_def by simp
  have "\<not> is_generated s n" using assms(7,10) by (simp add: is_generated_def)
  with assms(4) have "\<not> is_generated b n" unfolding step_def by blast
  with assms(1) gT have ic: "iface_closed G T n" unfolding absorbs_def by blast
  from generateKnownType_effect [OF assms(3,4,6,11)] obtain news where
    e: "gen_effect d G b s news s'" "\<forall>x \<in> set news. forced G n x" by blast
  have "is_generated T x" if "x \<in> set news" for x
  proof -
    from that e(2) have f: "forced G n x" by blast
    show ?thesis
    proof (cases "x = n")
      case True
      with gT show ?thesis by simp
    next
      case False
      with f obtain ms where
        "Underlying (Decl G n) = Interface ms"
        "impl_of G (Interface ms) (Scope (Obj_Pkg (Decl G n))) x"
        unfolding forced_def by (auto split: gotype.splits)
      with ic show ?thesis unfolding iface_closed_def impls_generated_def by simp
    qed
  qed
  with gen_effect_below [OF assms(1,2,4) e(1)] show ?thesis by blast
qed

lemma known_pass_below:
  "absorbs d G b T \<Longrightarrow> below s T \<Longrightarrow> inv8 G s \<Longrightarrow> step b s \<Longrightarrow> mod' T = mod' s \<Longrightarrow>
   scope_local G \<Longrightarrow> known_pass d G ord c s = Ok (c', s') \<Longrightarrow> below s' T"
proof (induction ord arbitrary: c s)
  case Nil
  then show ?case by simp
next
  case (Cons tt rest)
  note ab = Cons.prems(1) and bl = Cons.prems(2) and inv = Cons.prems(3) and sb = Cons.prems(4)
    and md = Cons.prems(5) and sl = Cons.prems(6) and run = Cons.prems(7)
  show ?case
  proof (cases "\<exists>ts. known s tt = Some ts \<and> local ts \<and> \<not> pod ts \<and> \<not> generated ts")
    case False
    then have r: "known_pass d G rest c s = Ok (c', s')"
      using run by (auto simp: Let_def split: option.splits)
    from Cons.IH [OF ab bl inv sb md sl r] show ?thesis .
  next
    case True
    then obtain ts where ts: "known s tt = Some ts" "local ts" "\<not> pod ts" "\<not> generated ts"
      by blast
    from run ts obtain s1 where
      r1: "generateKnownType d G tt s = Ok s1" and r2: "known_pass d G rest False s1 = Ok (c', s')"
      by (auto simp: Let_def split: result.splits)
    from generateKnownType_inv8 [OF inv r1] have a: "inv8 G s1" "step s s1" by simp_all
    have b1: "below s1 T" using ab bl inv sb md sl ts r1 by (rule generateKnownType_below)
    have sb1: "step b s1" using sb a(2) by (rule step_trans)
    have md1: "mod' T = mod' s1" using md a(2) by (simp add: step_def)
    from Cons.IH [OF ab b1 a(1) sb1 md1 sl r2] show ?thesis .
  qed
qed

lemma remaining_loop_below:
  "absorbs d G b T \<Longrightarrow> below s T \<Longrightarrow> inv8 G s \<Longrightarrow> step b s \<Longrightarrow> mod' T = mod' s \<Longrightarrow>
   scope_local G \<Longrightarrow> remaining_loop d G orders k s = Ok (code, s', passes) \<Longrightarrow> below s' T"
proof (induction orders arbitrary: k s)
  case Nil
  then show ?case by simp
next
  case (Cons ord rest)
  note ab = Cons.prems(1) and bl = Cons.prems(2) and inv = Cons.prems(3) and sb = Cons.prems(4)
    and md = Cons.prems(5) and sl = Cons.prems(6) and run = Cons.prems(7)
  from run obtain c s1 where p: "known_pass d G ord True s = Ok (c, s1)"
    by (auto split: result.splits)
  from known_pass_inv8 [OF inv p] have a: "inv8 G s1" "step s s1" by simp_all
  have b1: "below s1 T" using ab bl inv sb md sl p by (rule known_pass_below)
  show ?case
  proof (cases c)
    case True
    then have "s' = s1" using run p by simp
    with b1 show ?thesis by simp
  next
    case False
    then have r: "remaining_loop d G rest (Suc k) s1 = Ok (code, s', passes)"
      using run p by simp
    have sb1: "step b s1" using sb a(2) by (rule step_trans)
    have md1: "mod' T = mod' s1" using md a(2) by (simp add: step_def)
    from Cons.IH [OF ab b1 a(1) sb1 md1 sl r] show ?thesis .
  qed
qed

lemma absorbs_final:
  assumes "gen_effect d G b b news T" "quiescent T" "consistent G T"
  shows "absorbs d G b T"
  unfolding absorbs_def
proof (intro conjI ballI allI impI)
  fix n
  assume n: "n \<in> dom (known T)"
    and lp: "local_of G (mod' T) n \<and> \<not> isPod (Underlying (Decl G n))"
  then obtain ts where ts: "known T n = Some ts" by blast
  with assms(3) lp have "local ts" "\<not> pod ts" unfolding consistent_def by auto
  with assms(2) ts have "generated ts" unfolding quiescent_def by blast
  with ts show "is_generated T n" by (simp add: is_generated_def)
next
  fix x
  assume x: "is_generated T x \<and> \<not> is_generated b x"
  note e = assms(1) [unfolded gen_effect_def]
  from e x have xn: "x \<in> set news" by blast
  from e have "dom (known T) = dom (known b) \<union> set news \<union> (\<Union>x \<in> set news. refs d G b x)"
    by blast
  with xn show "refs d G b x \<subseteq> dom (known T)" by blast
  from e xn show "iface_closed G T x" by blast
qed

lemma driver_confluent:
  assumes "inv8 G s0" "scope_local G"
    and "remaining_loop d G orders1 k1 s0 = Ok (code1, s1, n1)" "quiescent s1"
    and "remaining_loop d G orders2 k2 s0 = Ok (code2, s2, n2)" "quiescent s2"
  shows "\<exists>news1 news2. gen_effect d G s0 s0 news1 s1 \<and> gen_effect d G s0 s0 news2 s2 \<and>
           set news1 = set news2"
proof -
  from remaining_loop_effect [OF assms(1) step_refl assms(2,3)] obtain news1 where
    e1: "gen_effect d G s0 s0 news1 s1" by blast
  from remaining_loop_effect [OF assms(1) step_refl assms(2,5)] obtain news2 where
    e2: "gen_effect d G s0 s0 news2 s2" by blast
  from remaining_loop_inv8 [OF assms(1,3)] have i1: "inv8 G s1" "step s0 s1" by simp_all
  from remaining_loop_inv8 [OF assms(1,5)] have i2: "inv8 G s2" "step s0 s2" by simp_all
  have a1: "absorbs d G s0 s1"
    using e1 assms(4) inv8_consistent [OF i1(1)] by (rule absorbs_final)
  have a2: "absorbs d G s0 s2"
    using e2 assms(6) inv8_consistent [OF i2(1)] by (rule absorbs_final)
  have b01: "below s0 s1" using i1(2) by (auto simp: below_def step_def)
  have b02: "below s0 s2" using i2(2) by (auto simp: below_def step_def)
  have m1: "mod' s1 = mod' s0" using i1(2) by (simp add: step_def)
  have m2: "mod' s2 = mod' s0" using i2(2) by (simp add: step_def)
  have b12: "below s1 s2"
    using a2 b02 assms(1) step_refl m2 assms(2,3) by (rule remaining_loop_below)
  have b21: "below s2 s1"
    using a1 b01 assms(1) step_refl m1 assms(2,5) by (rule remaining_loop_below)
  have g: "is_generated s1 x = is_generated s2 x" for x
    using b12 b21 unfolding below_def by blast
  have "x \<in> set news1 \<longleftrightarrow> x \<in> set news2" for x
  proof -
    from e1 have "x \<in> set news1 \<longleftrightarrow> is_generated s1 x \<and> \<not> is_generated s0 x"
      unfolding gen_effect_def by blast
    moreover from e2 have "x \<in> set news2 \<longleftrightarrow> is_generated s2 x \<and> \<not> is_generated s0 x"
      unfolding gen_effect_def by blast
    ultimately show ?thesis using g by simp
  qed
  then have "set news1 = set news2" by blast
  with e1 e2 show ?thesis by blast
qed

lemma sort_Slice_unique:
  assumes "set xs = set ys" "distinct (map impl_name xs)" "distinct (map impl_name ys)"
  shows "sort_Slice xs = sort_Slice ys"
proof -
  let ?sx = "sort_key impl_name xs" and ?sy = "sort_key impl_name ys"
  have dx: "distinct xs" "inj_on impl_name (set xs)" using assms(2) by (simp_all add: distinct_map)
  have dy: "distinct ys" "inj_on impl_name (set ys)" using assms(3) by (simp_all add: distinct_map)
  have 1: "distinct (map impl_name ?sx)" using dx by (simp add: distinct_map)
  have 2: "distinct (map impl_name ?sy)" using dy by (simp add: distinct_map)
  have 3: "sorted (map impl_name ?sx)" "sorted (map impl_name ?sy)" by simp_all
  have 4: "set (map impl_name ?sx) = set (map impl_name ?sy)" using assms(1) by simp
  from sorted_distinct_set_unique [OF 3(1) 1 3(2) 2 4]
  have m: "map impl_name ?sx = map impl_name ?sy" .
  have "inj_on impl_name (set ?sx \<union> set ?sy)" using dx(2) assms(1) by simp
  from inj_on_map_eq_map [OF this] m show ?thesis by (simp add: sort_Slice_def)
qed

lemma sort_Slice_sorted:
  "sorted (map impl_name (sort_Slice xs))" "set (sort_Slice xs) = set xs"
  by (simp_all add: sort_Slice_def)

lemma unique_impls_file:
  "unique_impls s \<Longrightarrow> distinct (map impl_name (file_impls s p))"
  by (auto simp: unique_impls_def file_impls_def split: option.splits)

lemma gen_effect_set_impls:
  assumes "gen_effect d G b s news s'"
  shows "set (file_impls s' p) =
           set (file_impls s p) \<union>
           (\<Union>x \<in> {x \<in> set news. pkg_path G x = p}. set (impl_list d G b x))"
proof -
  from assms have "file_impls s' p = file_impls s p @
      concat (map (impl_list d G b) (filter (\<lambda>x. pkg_path G x = p) news))"
    unfolding gen_effect_def by blast
  then show ?thesis by auto
qed

lemma render_file_pkg:
  "pkg f = pkg g \<Longrightarrow> render_file f xs = render_file g xs"
  by (simp add: render_file_def)

lemma outputs_agree:
  assumes e1: "gen_effect d G s0 s0 news1 s1" and e2: "gen_effect d G s0 s0 news2 s2"
    and ns: "set news1 = set news2"
    and u1: "unique_impls s1" and u2: "unique_impls s2"
    and pn: "pkg_named G"
    and m: "mod' s1 = mod' s2"
  shows "file_output \<lparr>gc_mod = mod' s1, files = codegen s1\<rparr> p =
         file_output \<lparr>gc_mod = mod' s2, files = codegen s2\<rparr> p"
proof -
  have se: "set (file_impls s1 p) = set (file_impls s2 p)"
    unfolding gen_effect_set_impls [OF e1] gen_effect_set_impls [OF e2] ns ..
  have so: "sort_Slice (file_impls s1 p) = sort_Slice (file_impls s2 p)"
    using se unique_impls_file [OF u1] unique_impls_file [OF u2] by (rule sort_Slice_unique)
  have em: "file_impls s1 p = [] \<longleftrightarrow> file_impls s2 p = []"
    using se by (metis set_empty)
  show ?thesis
  proof (cases "codegen s1 p")
    case n1: None
    then have "file_impls s1 p = []" by (simp add: file_impls_def)
    with em have "file_impls s2 p = []" by simp
    with n1 show ?thesis by (auto simp: file_output_def file_impls_def split: option.splits)
  next
    case f1: (Some f1)
    show ?thesis
    proof (cases "codegen s2 p")
      case n2: None
      then have "file_impls s2 p = []" by (simp add: file_impls_def)
      with em have "file_impls s1 p = []" by simp
      with n2 show ?thesis by (auto simp: file_output_def file_impls_def split: option.splits)
    next
      case f2: (Some f2)
      have i1: "file_impls s1 p = impls f1" and i2: "file_impls s2 p = impls f2"
        using f1 f2 by (simp_all add: file_impls_def)
      have pk1: "file_pkg s1 p = Some (pkg f1)" and pk2: "file_pkg s2 p = Some (pkg f2)"
        using f1 f2 by (simp_all add: file_pkg_def)
      have pkg: "pkg f1 = pkg f2"
      proof (cases "codegen s0 p")
        case None
        from e1 None f1 obtain n where
          a: "pkg_path G n = p" "file_pkg s1 p = Some (Name (Obj_Pkg (Decl G n)))"
          unfolding gen_effect_def by (metis option.distinct(1))
        from e2 None f2 obtain n' where
          b: "pkg_path G n' = p" "file_pkg s2 p = Some (Name (Obj_Pkg (Decl G n')))"
          unfolding gen_effect_def by (metis option.distinct(1))
        from pn a(1) b(1) have "Name (Obj_Pkg (Decl G n)) = Name (Obj_Pkg (Decl G n'))"
          unfolding pkg_named_def by simp
        with a(2) b(2) pk1 pk2 show ?thesis by simp
      next
        case (Some f0)
        from e1 Some have "file_pkg s1 p = file_pkg s0 p"
          unfolding gen_effect_def by (metis option.distinct(1))
        moreover from e2 Some have "file_pkg s2 p = file_pkg s0 p"
          unfolding gen_effect_def by (metis option.distinct(1))
        ultimately have "Some (pkg f1) = Some (pkg f2)" using pk1 pk2 by metis
        then show ?thesis by simp
      qed
      show ?thesis
        using f1 f2 so em m render_file_pkg [OF pkg] unfolding i1 i2
        by (simp add: file_output_def)
    qed
  qed
qed

lemma write_loop_rendered:
  "Rendered fp out \<in> set (snd (write_loop code wr fmt order ev)) \<Longrightarrow>
     Rendered fp out \<in> set ev \<or> (\<exists>p. fp = fullPath_of code p \<and> file_output code p = Some out)"
proof (induction order arbitrary: ev)
  case Nil
  then show ?case by simp
next
  case (Cons p rest)
  show ?case
  proof (cases "file_output code p")
    case None
    then have "snd (write_loop code wr fmt (p # rest) ev) = snd (write_loop code wr fmt rest ev) \<or>
               snd (write_loop code wr fmt (p # rest) ev) =
                 snd (write_loop code wr fmt rest (ev @ [LogForeign p]))"
      by (auto simp: file_output_def split: option.splits if_splits)
    with Cons.prems Cons.IH [of ev] Cons.IH [of "ev @ [LogForeign p]"] show ?thesis by auto
  next
    case (Some o1)
    then obtain fl where f: "files code p = Some fl" "length (impls fl) \<noteq> 0"
        "prefix (ModPath (gc_mod code)) p" "o1 = render_file fl (sort_Slice (impls fl))"
      by (auto simp: file_output_def split: option.splits if_splits)
    let ?fp = "fullPath_of code p"
    let ?ev' = "ev @ [Created ?fp, Rendered ?fp o1, Closed ?fp, LogSaved p ?fp]"
    have "set (snd (write_loop code wr fmt (p # rest) ev)) \<subseteq>
            set ev \<union> {Created ?fp, Rendered ?fp o1, Closed ?fp} \<or>
          snd (write_loop code wr fmt (p # rest) ev) = snd (write_loop code wr fmt rest ?ev')"
      using f by (auto simp: Let_def split: option.splits)
    then show ?thesis
    proof
      assume "set (snd (write_loop code wr fmt (p # rest) ev)) \<subseteq>
            set ev \<union> {Created ?fp, Rendered ?fp o1, Closed ?fp}"
      with Cons.prems Some show ?thesis by auto
    next
      assume "snd (write_loop code wr fmt (p # rest) ev) = snd (write_loop code wr fmt rest ?ev')"
      with Cons.prems Cons.IH [of ?ev'] Some show ?thesis by auto
    qed
  qed
qed

lemma fullPath_of_inj:
  assumes "fullPath_of code p = fullPath_of code' q" "gc_mod code = gc_mod code'"
    and "prefix (ModPath (gc_mod code)) p" "prefix (ModPath (gc_mod code)) q"
  shows "p = q"
proof -
  from assms(3) obtain x where x: "p = ModPath (gc_mod code) @ x" by (auto simp: prefix_def)
  from assms(4) obtain y where y: "q = ModPath (gc_mod code) @ y" by (auto simp: prefix_def)
  from assms(1,2) x y show ?thesis by (simp add: fullPath_of_def TrimPrefix_def)
qed

lemma file_output_prefix:
  "file_output code p = Some out \<Longrightarrow> prefix (ModPath (gc_mod code)) p"
  by (auto simp: file_output_def split: option.splits if_splits)

lemma generator_deterministic:
  assumes "inj (named_String G)" "scope_local G" "pkg_named G"
    and "generateCode d G loaded generate = Ok (Inr s0)"
    and "generateRemainingKnownTypes d G orders1 s0 = Ok (code1, s1, n1)"
    and "dom (known s1) \<subseteq> set (orders1 ! (n1 - 1))"
    and "generateRemainingKnownTypes d G orders2 s0 = Ok (code2, s2, n2)"
    and "dom (known s2) \<subseteq> set (orders2 ! (n2 - 1))"
  shows "file_output code1 p = file_output code2 p"
    and "Rendered fp out1 \<in> set (snd (writeGeneratedCode code1 wr1 fmt1 ord1)) \<Longrightarrow>
         Rendered fp out2 \<in> set (snd (writeGeneratedCode code2 wr2 fmt2 ord2)) \<Longrightarrow>
         out1 = out2"
proof -
  from assms(4) obtain sc m sz where
    l: "generate_loop d G sc generate (newSizegen m sz) = Ok (Inr s0)"
    by (cases loaded) (auto simp: generateCode_def)
  from generate_loop_inv8 [OF inv8_newSizegen l] have i0: "inv8 G s0" by simp
  from generate_loop_more [OF inv8_newSizegen emits_all_newSizegen l] have e0: "emits_all G s0"
    by simp
  have r1: "remaining_loop d G orders1 0 s0 = Ok (code1, s1, n1)"
    and r2: "remaining_loop d G orders2 0 s0 = Ok (code2, s2, n2)"
    using assms(5,7) by (simp_all add: generateRemainingKnownTypes_def)
  from remaining_loop_more [OF i0 e0 r1] assms(6) have
    c1: "code1 = \<lparr>gc_mod = mod' s1, files = codegen s1\<rparr>" and q1: "quiescent s1" by simp_all
  from remaining_loop_more [OF i0 e0 r2] assms(8) have
    c2: "code2 = \<lparr>gc_mod = mod' s2, files = codegen s2\<rparr>" and q2: "quiescent s2" by simp_all
  from driver_confluent [OF i0 assms(2) r1 q1 r2 q2] obtain news1 news2 where
    e: "gen_effect d G s0 s0 news1 s1" "gen_effect d G s0 s0 news2 s2" "set news1 = set news2"
    by blast
  from remaining_loop_inv8 [OF i0 r1] have i1: "inv8 G s1" "step s0 s1" by simp_all
  from remaining_loop_inv8 [OF i0 r2] have i2: "inv8 G s2" "step s0 s2" by simp_all
  have u1: "unique_impls s1" and u2: "unique_impls s2"
    using i1(1) i2(1) assms(1) by (simp_all add: inv8_def)
  have m: "mod' s1 = mod' s2" using i1(2) i2(2) by (simp add: step_def)
  have eq: "file_output code1 q = file_output code2 q" for q
    unfolding c1 c2 using e u1 u2 assms(3) m by (rule outputs_agree)
  show "file_output code1 p = file_output code2 p" by (rule eq)
  have gm: "gc_mod code1 = gc_mod code2" using c1 c2 m by simp
  assume a1: "Rendered fp out1 \<in> set (snd (writeGeneratedCode code1 wr1 fmt1 ord1))"
    and a2: "Rendered fp out2 \<in> set (snd (writeGeneratedCode code2 wr2 fmt2 ord2))"
  from write_loop_rendered [OF a1 [unfolded writeGeneratedCode_def]] obtain p1 where
    p1: "fp = fullPath_of code1 p1" "file_output code1 p1 = Some out1" by auto
  from write_loop_rendered [OF a2 [unfolded writeGeneratedCode_def]] obtain p2 where
    p2: "fp = fullPath_of code2 p2" "file_output code2 p2 = Some out2" by auto
  have "prefix (ModPath (gc_mod code1)) p1" using p1(2) by (rule file_output_prefix)
  moreover have "prefix (ModPath (gc_mod code1)) p2"
    using file_output_prefix [OF p2(2)] gm by simp
  moreover have "fullPath_of code1 p1 = fullPath_of code2 p2" using p1(1) p2(1) by simp
  ultimately have "p1 = p2" using gm fullPath_of_inj by blast
  with p1(2) p2(2) eq [of p1] show "out1 = out2" by simp
qed

text \<open>
  The cycle \<open>A \<rightarrow> B \<rightarrow> A\<close> under two orders of the registry.
\<close>

lemma ex_scope_local: "scope_local ex_prog"
  unfolding scope_local_def
proof (intro allI impI)
  fix n obj m
  assume a: "obj \<in> set (Scope (Obj_Pkg (Decl ex_prog n))) \<and> snd obj = Named m"
  then have "n = 0 \<or> n = 1"
    by (auto simp: ex_prog_def ex_decl_def ex_pkg_def ex_foreign_pkg_def split: if_splits)
  with a have "m = 0 \<or> m = 1"
    by (auto simp: ex_prog_def ex_decl_def ex_pkg_def)
  with \<open>n = 0 \<or> n = 1\<close> show "pkg_path ex_prog m = pkg_path ex_prog n"
    by (auto simp: pkg_path_def ex_prog_def ex_decl_def)
qed

lemma ex_pkg_named: "pkg_named ex_prog"
  by (auto simp: pkg_named_def pkg_path_def ex_prog_def ex_decl_def ex_pkg_def
      ex_foreign_pkg_def split: if_splits)

lemma ex_driver_rev:
  "generateRemainingKnownTypes 3 ex_prog [[1, 0], [1, 0]] ex_after_roots =
     Ok (\<lparr>gc_mod = ex_mod, files = codegen ex_final\<rparr>, ex_final, 2)"
  by (simp add: generateRemainingKnownTypes_def ex_gen_def newSizegen_def ex_sizes_def
      ex_prog_def ex_decl_def ex_pkg_def ex_mod_def generateKnownType_def
      getKnownType_def Let_def sizeImplForStruct_def eval_nat_numeral isString_def size_id_def
      append_impl_def named_String_def ex_after_roots_def ex_final_def ex_implA_def ex_implB_def
      cachedSize_func_def)

lemma generator_deterministic_example:
  "scope_local ex_prog \<and> pkg_named ex_prog \<and>
   generateRemainingKnownTypes 3 ex_prog [[0, 1], [0, 1]] ex_after_roots =
     Ok (\<lparr>gc_mod = ex_mod, files = codegen ex_final\<rparr>, ex_final, 2) \<and>
   generateRemainingKnownTypes 3 ex_prog [[1, 0], [1, 0]] ex_after_roots =
     Ok (\<lparr>gc_mod = ex_mod, files = codegen ex_final\<rparr>, ex_final, 2) \<and>
   file_output \<lparr>gc_mod = ex_mod, files = codegen ex_final\<rparr> ''m/p'' =
     Some (render_file \<lparr>pkg = ''p'', impls = [ex_implA, ex_implB]\<rparr> [ex_implA, ex_implB])"
proof -
  have c1: "dom (known ex_final) \<subseteq> set ([[0, 1], [0, 1 :: nat]] ! (2 - 1))"
    and c2: "dom (known ex_final) \<subseteq> set ([[1, 0], [1, 0 :: nat]] ! (2 - 1))"
    by (auto simp: ex_final_def)
  note generator_deterministic(1)
    [OF ex_inj ex_scope_local ex_pkg_named ex_roots ex_driver c1 ex_driver_rev c2, of "''m/p''"]
  have "file_output \<lparr>gc_mod = ex_mod, files = codegen ex_final\<rparr> ''m/p'' =
     Some (render_file \<lparr>pkg = ''p'', impls = [ex_implA, ex_implB]\<rparr> [ex_implA, ex_implB])"
    by (simp add: file_output_def ex_final_def ex_mod_def sort_Slice_def ex_implA_def
        ex_implB_def)
  with ex_scope_local ex_pkg_named ex_driver ex_driver_rev show ?thesis by (intro conjI)
qed

section \<open>Properties of generateCode\<close>

text \<open>
  C10. \<open>generateCode\<close> reads the module and the type sizes from the first loaded
  package without checking that there is one: on the empty slice it panics (index out
  of range) whatever the roots are, and returns neither a generator nor an error.
\<close>

theorem generateCode_empty_panics:
  "generateCode d G [] generate = Panics IndexOutOfRange \<and>
   (\<forall>r. generateCode d G [] generate \<noteq> Ok r)"
  by (simp add: generateCode_def)

section \<open>Properties of writeGeneratedCode\<close>

lemma write_loop_append:
  "write_loop code wr fmt (xs @ ys) ev =
     (case write_loop code wr fmt xs ev of
        (None, ev') \<Rightarrow> write_loop code wr fmt ys ev'
      | (Some e, ev') \<Rightarrow> (Some e, ev'))"
  by (induction xs arbitrary: ev) (auto simp: Let_def split: option.splits)

text \<open>
  C3, as the spec states it: a failure to close the sink of one group would be
  reported without stopping the run, the remaining groups still being attempted. It
  is not so: with the groups \<open>m/a\<close> and \<open>m/b\<close> taken in this order, the file of
  \<open>m/a\<close> formatted and written and its sink failing to close, the writer returns
  the error after closing \<open>m/a\<close> and never opens the sink of \<open>m/b\<close>, a group it
  writes when it comes first.
\<close>

theorem write_close_error_counterexample:
  "close_err (ex_wr (fullPath_of ex_code ''m/a'')) = Some (Errorf ''close'') \<and>
   Render ex_fmt (ex_wr (fullPath_of ex_code ''m/a''))
     (render_file \<lparr>pkg = ''a'', impls = [ex_impl ''m/a'' ''T'']\<rparr>
        (sort_Slice [ex_impl ''m/a'' ''T''])) = None \<and>
   fst (writeGeneratedCode ex_code ex_wr ex_fmt [''m/a'', ''m/b'']) = Some (Errorf ''close'') \<and>
   Created (fullPath_of ex_code ''m/b'')
     \<notin> set (snd (writeGeneratedCode ex_code ex_wr ex_fmt [''m/a'', ''m/b''])) \<and>
   Created (fullPath_of ex_code ''m/b'')
     \<in> set (snd (writeGeneratedCode ex_code ex_wr ex_fmt [''m/b'', ''m/a'']))"
  by (simp add: writeGeneratedCode_def ex_code_def ex_wr_def ex_mod_def fullPath_of_def
      TrimPrefix_def sort_Slice_def Let_def Render_def ex_fmt_def isIdent_def render_file_def
      ex_impl_def impl_decls_def cachedSize_func_def)

text \<open>
  C3, amended: when the sink of one group fails to close, the writer stops there,
  and the groups that remain in the iteration (\<open>rest\<close>) are not attempted. If the
  file had been rendered into the sink (formatted and written), the error of
  \<open>Close\<close> is what the writer returns, at once; the events are those of the groups
  before, then the creation, rendering and closing of the failing group, and nothing
  more. If the rendering had failed, the sink is closed all the same, the error of
  that \<open>Close\<close> is dropped and the writer returns the rendering error wrapped as
  "failed to save".
\<close>

theorem write_close_error_stops:
  assumes "fst (writeGeneratedCode code wr fmt before) = None"
    and "files code p = Some file" and "impls file \<noteq> []"
    and "prefix (ModPath (gc_mod code)) p"
    and "create_err (wr (fullPath_of code p)) = None"
    and "close_err (wr (fullPath_of code p)) = Some err"
  shows "writeGeneratedCode code wr fmt (before @ p # rest) =
           (case Render fmt (wr (fullPath_of code p))
                   (render_file file (sort_Slice (impls file))) of
              None \<Rightarrow>
                (Some err,
                 snd (writeGeneratedCode code wr fmt before) @
                   [Created (fullPath_of code p),
                    Rendered (fullPath_of code p) (render_file file (sort_Slice (impls file))),
                    Closed (fullPath_of code p)])
            | Some e \<Rightarrow>
                (Some (FailedToSave (fullPath_of code p) e),
                 snd (writeGeneratedCode code wr fmt before) @
                   [Created (fullPath_of code p), Closed (fullPath_of code p)]))"
  using assms
  by (cases "write_loop code wr fmt before []")
     (simp add: writeGeneratedCode_def write_loop_append Let_def split: option.splits)

text \<open>
  The two cases on \<open>ex_code\<close>, the group \<open>m/a\<close> first: with \<open>ex_wr\<close> the file is
  rendered and the error of \<open>Close\<close> returned; with \<open>ex_wr_full\<close> the write fails
  and the writer returns "failed to save" with the error of the write. In both the
  group \<open>m/b\<close> is left alone.
\<close>

theorem write_close_error_stops_witness:
  "fst (writeGeneratedCode ex_code ex_wr ex_fmt []) = None \<and>
   files ex_code ''m/a'' = Some \<lparr>pkg = ''a'', impls = [ex_impl ''m/a'' ''T'']\<rparr> \<and>
   prefix (ModPath (gc_mod ex_code)) ''m/a'' \<and>
   create_err (ex_wr (fullPath_of ex_code ''m/a'')) = None \<and>
   close_err (ex_wr (fullPath_of ex_code ''m/a'')) = Some (Errorf ''close'') \<and>
   close_err (ex_wr_full (fullPath_of ex_code ''m/a'')) = Some (Errorf ''close'') \<and>
   writeGeneratedCode ex_code ex_wr ex_fmt ([] @ ''m/a'' # [''m/b'']) =
     (Some (Errorf ''close''),
      [Created [''/src'', ''/a'', ''cached_size.go''],
       Rendered [''/src'', ''/a'', ''cached_size.go'']
         (render_file \<lparr>pkg = ''a'', impls = [ex_impl ''m/a'' ''T'']\<rparr>
            [ex_impl ''m/a'' ''T'']),
       Closed [''/src'', ''/a'', ''cached_size.go'']]) \<and>
   writeGeneratedCode ex_code ex_wr_full ex_fmt ([] @ ''m/a'' # [''m/b'']) =
     (Some (FailedToSave [''/src'', ''/a'', ''cached_size.go''] (Errorf ''write'')),
      [Created [''/src'', ''/a'', ''cached_size.go''],
       Closed [''/src'', ''/a'', ''cached_size.go'']])"
proof -
  let ?f = "\<lparr>pkg = ''a'', impls = [ex_impl ''m/a'' ''T'']\<rparr>"
  have fp: "fullPath_of ex_code ''m/a'' = [''/src'', ''/a'', ''cached_size.go'']"
    by (simp add: ex_code_def ex_mod_def fullPath_of_def TrimPrefix_def)
  have so: "sort_Slice [ex_impl ''m/a'' ''T''] = [ex_impl ''m/a'' ''T'']"
    by (simp add: sort_Slice_def)
  have fm: "ex_fmt (render_file ?f [ex_impl ''m/a'' ''T'']) = None"
    by (simp add: ex_fmt_def isIdent_def render_file_def ex_impl_def impl_decls_def
        cachedSize_func_def)
  have h1: "fst (writeGeneratedCode ex_code wr ex_fmt []) = None" for wr
    by (simp add: writeGeneratedCode_def)
  have h2: "files ex_code ''m/a'' = Some ?f"
    by (simp add: ex_code_def)
  have h3: "impls ?f \<noteq> []"
    by simp
  have h4: "prefix (ModPath (gc_mod ex_code)) ''m/a''"
    by (simp add: ex_code_def ex_mod_def)
  have h5: "create_err (ex_wr (fullPath_of ex_code ''m/a'')) = None"
    by (simp add: ex_wr_def)
  have h6: "close_err (ex_wr (fullPath_of ex_code ''m/a'')) = Some (Errorf ''close'')"
    by (simp add: ex_wr_def fp)
  have k5: "create_err (ex_wr_full (fullPath_of ex_code ''m/a'')) = None"
    by (simp add: ex_wr_full_def)
  have k6: "close_err (ex_wr_full (fullPath_of ex_code ''m/a'')) = Some (Errorf ''close'')"
    by (simp add: ex_wr_full_def fp)
  have r1: "Render ex_fmt (ex_wr (fullPath_of ex_code ''m/a''))
              (render_file ?f (sort_Slice (impls ?f))) = None"
    by (simp add: Render_def so fm ex_wr_def)
  have r2: "Render ex_fmt (ex_wr_full (fullPath_of ex_code ''m/a''))
              (render_file ?f (sort_Slice (impls ?f))) = Some (Errorf ''write'')"
    by (simp add: Render_def so fm ex_wr_full_def fp)
  have a: "writeGeneratedCode ex_code ex_wr ex_fmt ([] @ ''m/a'' # [''m/b'']) =
     (Some (Errorf ''close''),
      [Created [''/src'', ''/a'', ''cached_size.go''],
       Rendered [''/src'', ''/a'', ''cached_size.go''] (render_file ?f [ex_impl ''m/a'' ''T'']),
       Closed [''/src'', ''/a'', ''cached_size.go'']])"
    using write_close_error_stops [OF h1 [of ex_wr] h2 h3 h4 h5 h6, of "[''m/b'']"]
    unfolding r1 by (simp add: fp so writeGeneratedCode_def)
  have b: "writeGeneratedCode ex_code ex_wr_full ex_fmt ([] @ ''m/a'' # [''m/b'']) =
     (Some (FailedToSave [''/src'', ''/a'', ''cached_size.go''] (Errorf ''write'')),
      [Created [''/src'', ''/a'', ''cached_size.go''],
       Closed [''/src'', ''/a'', ''cached_size.go'']])"
    using write_close_error_stops [OF h1 [of ex_wr_full] h2 h3 h4 k5 k6, of "[''m/b'']"]
    unfolding r2 by (simp add: fp writeGeneratedCode_def)
  show ?thesis
    using h1 [of ex_wr] h2 h4 h5 h6 k6 a b by (intro conjI)
qed

end
